theory Spec2Isabelle
  imports Main "HOL-Library.Word"
begin

section \<open>Conventions of the model\<close>

text \<open>
  The repository holds two versions of the ring buffer. The file that keeps an occupancy
  count (\<^verbatim>\<open>used\<close>) and a read cursor (\<^verbatim>\<open>tail\<close>), with
  \<^verbatim>\<open>rb_write_block\<close>, \<^verbatim>\<open>rb_write_nonblock\<close>,
  \<^verbatim>\<open>rb_read_block\<close>, \<^verbatim>\<open>rb_read_nonblock\<close> and
  \<^verbatim>\<open>rb_loose\<close>, is modelled first and keeps the source's names. The file
  \<^verbatim>\<open>ringbuffer.c\<close>, whose struct keeps \<^verbatim>\<open>head\<close> and
  \<^verbatim>\<open>tail\<close>, with \<^verbatim>\<open>rb_write_asy\<close>,
  \<^verbatim>\<open>rb_read_asy\<close> and \<^verbatim>\<open>rb_loose_data\<close>, is modelled
  second; where a name exists in both files the second one carries the suffix
  \<open>_ht\<close>. An identifier cannot start with an underscore, so the static helpers
  \<^verbatim>\<open>_put\<close>, \<^verbatim>\<open>_get\<close>, \<^verbatim>\<open>_free\<close>,
  \<^verbatim>\<open>_used\<close> are \<open>ring_put\<close>, \<open>ring_get\<close>,
  \<open>ring_free\<close>, \<open>ring_used\<close>.

  \<^item> \<^verbatim>\<open>size_t\<close> is 64 bits wide and \<^verbatim>\<open>int\<close> 32 bits
    (LP64). A \<^verbatim>\<open>size_t\<close> is a natural number; the additions and
    subtractions of the source are written with their wrap-around (\<open>size_add\<close>,
    \<open>size_sub\<close>). The one exception is \<^verbatim>\<open>co -= res\<close> in the transfer
    loops, written \<open>co - nat res\<close> or as \<open>drop\<close> on the caller's bytes:
    \<^verbatim>\<open>_put\<close> and \<^verbatim>\<open>_get\<close> never return more than the
    \<^verbatim>\<open>co\<close> they are given, so it cannot wrap.
  \<^item> A call that does not return a value gives \<open>Inl\<close> of the reason: a modulus by
    zero, a \<^verbatim>\<open>memcpy\<close> that leaves its buffer, a dereferenced null pointer, a
    failed \<^verbatim>\<open>assert\<close>, a count that does not fit \<^verbatim>\<open>int\<close>,
    a wait that nobody ends, a loop that cannot make progress.
  \<^item> The functions are run by one thread. The spin lock and the mutexes then always
    succeed at once and signalling a condition changes nothing, so they leave no trace in
    the model; a thread that waits on a condition is never woken
    (\<open>WaitsForever\<close>), also not spuriously in a way that would let it return,
    since it would find the buffer as it left it and wait again.
  \<^item> The caller's buffer \<^verbatim>\<open>po\<close> of a write is the list of its bytes,
    \<^verbatim>\<open>co\<close> its length; a read returns the bytes it stored into
    \<^verbatim>\<open>po\<close>, in order.
\<close>

type_synonym byte = "8 word"

datatype stop =
    DivByZero
  | OutOfBounds
  | NullDeref
  | AssertFailed
  | IntRange
  | WaitsForever
  | SpinsForever

text \<open>
  The error codes are macros of the system header \<^verbatim>\<open>errno.h\<close>, which is not
  part of the repository. They are given their Linux values; the proofs use only that
  they are positive and differ from each other.
\<close>

definition EFAULT :: int where "EFAULT = 14"
definition ENOMEM :: int where "ENOMEM = 12"
definition E2BIG :: int where "E2BIG = 7"
definition EAGAIN :: int where "EAGAIN = 11"

definition size_add :: "nat \<Rightarrow> nat \<Rightarrow> nat" where
  "size_add a b = (a + b) mod 2 ^ 64"

definition size_sub :: "nat \<Rightarrow> nat \<Rightarrow> nat" where
  "size_sub a b = (if b \<le> a then a - b else a + 2 ^ 64 - b)"

text \<open>
  The conversion of a \<^verbatim>\<open>size_t\<close> to \<^verbatim>\<open>int\<close>
  (\<^verbatim>\<open>res = _put(...)\<close>, \<^verbatim>\<open>res = written\<close>) keeps the value up
  to \<^verbatim>\<open>INT_MAX\<close>; above it the result is implementation-defined and
  the model stops. Adding two \<^verbatim>\<open>int\<close>s beyond \<^verbatim>\<open>INT_MAX\<close> is
  undefined and stops as well.
\<close>

definition to_int :: "nat \<Rightarrow> stop + int" where
  "to_int n = (if n < 2 ^ 31 then Inr (int n) else Inl IntRange)"

definition int_add :: "int \<Rightarrow> int \<Rightarrow> stop + int" where
  "int_add a b = (if - (2 ^ 31) \<le> a + b \<and> a + b < 2 ^ 31 then Inr (a + b) else Inl IntRange)"

text \<open>
  \<^verbatim>\<open>memcpy(&data[off], po, n)\<close> into the arena and
  \<^verbatim>\<open>memcpy(po, &data[off], n)\<close> out of it. The arena has as many bytes as
  were allocated for it; the caller's buffer has \<open>room\<close> bytes. A copy that
  leaves either buffer is undefined behaviour.
\<close>

definition memcpy_in :: "byte list \<Rightarrow> nat \<Rightarrow> byte list \<Rightarrow> nat \<Rightarrow> stop + byte list" where
  "memcpy_in d off po n =
     (if off + n \<le> length d \<and> n \<le> length po
      then Inr (take off d @ take n po @ drop (off + n) d)
      else Inl OutOfBounds)"

definition memcpy_out :: "byte list \<Rightarrow> nat \<Rightarrow> nat \<Rightarrow> nat \<Rightarrow> stop + byte list" where
  "memcpy_out d off n room =
     (if off + n \<le> length d \<and> n \<le> room
      then Inr (take n (drop off d))
      else Inl OutOfBounds)"

section \<open>The buffer with \<open>used\<close> and \<open>tail\<close>\<close>

text \<open>
  \<^verbatim>\<open>struct _ringbuffer\<close>: the scalar fields and the arena
  \<^verbatim>\<open>data\<close>. The field \<^verbatim>\<open>size\<close> is \<open>size_rb\<close>. The lock and
  condition fields have no state in a single-threaded run. A handle
  (\<^verbatim>\<open>ringbuffer_t\<close>) is the pointer \<^verbatim>\<open>_rb\<close>, \<open>None\<close> when
  it is null and the block it points to otherwise; a handle whose pointer was never
  written has neither form and is outside the model.
\<close>

record ringbuffer =
  size_rb :: nat
  used :: nat
  tail :: nat
  lost :: nat
  data :: "byte list"

type_synonym handle = "ringbuffer option"

definition ring_free :: "ringbuffer \<Rightarrow> nat" where
  "ring_free rb = size_sub (size_rb rb) (used rb)"

definition ring_used :: "ringbuffer \<Rightarrow> nat" where
  "ring_used rb = used rb"

text \<open>
  \<^verbatim>\<open>_put\<close>. The modulus by \<^verbatim>\<open>size\<close> comes first in the source and
  traps when the size is 0. \<^verbatim>\<open>new_head\<close> is reduced modulo the size before it
  is compared with the size, so the test always succeeds and the single
  \<^verbatim>\<open>memcpy\<close> of the first branch is the one that runs; the second branch is
  kept as the source has it.
\<close>

definition ring_put :: "ringbuffer \<Rightarrow> byte list \<Rightarrow> nat \<Rightarrow> stop + (ringbuffer \<times> nat)" where
  "ring_put rb po co0 =
     (if size_rb rb = 0 then Inl DivByZero
      else
        let free = size_sub (size_rb rb) (used rb);
            head = size_add (tail rb) (used rb) mod size_rb rb;
            co = (if co0 > free then free else co0);
            new_head = size_add head co mod size_rb rb
        in if new_head \<le> size_rb rb then
             (case memcpy_in (data rb) head po co of
                Inl e \<Rightarrow> Inl e
              | Inr d \<Rightarrow> Inr (rb\<lparr>used := size_add (used rb) co, data := d\<rparr>, co))
           else
             (let i = size_sub (size_rb rb) head in
              case memcpy_in (data rb) head po i of
                Inl e \<Rightarrow> Inl e
              | Inr d \<Rightarrow>
                  (case memcpy_in d 0 (drop i po) (size_sub new_head (size_rb rb)) of
                     Inl e \<Rightarrow> Inl e
                   | Inr d' \<Rightarrow> Inr (rb\<lparr>used := size_add (used rb) co, data := d'\<rparr>, co))))"

text \<open>
  \<^verbatim>\<open>_get\<close>. The result is the new state, the bytes copied to the caller and
  their count. \<open>co0\<close> is also the room of the caller's buffer.
\<close>

definition ring_get :: "ringbuffer \<Rightarrow> nat \<Rightarrow> stop + (ringbuffer \<times> byte list \<times> nat)" where
  "ring_get rb co0 =
     (let co = (if co0 > used rb then used rb else co0) in
      if co = 0 then Inr (rb, [], 0)
      else if size_rb rb = 0 then Inl DivByZero
      else
        let new_tail = size_add (tail rb) co mod size_rb rb in
        if new_tail > tail rb then
          (case memcpy_out (data rb) (tail rb) co co0 of
             Inl e \<Rightarrow> Inl e
           | Inr bs \<Rightarrow> Inr (rb\<lparr>used := size_sub (used rb) co, tail := new_tail\<rparr>, bs, co))
        else
          (let co' = size_sub (size_rb rb) (tail rb) in
           case memcpy_out (data rb) (tail rb) co' co0 of
             Inl e \<Rightarrow> Inl e
           | Inr bs \<Rightarrow> Inr (rb\<lparr>used := size_sub (used rb) co', tail := 0\<rparr>, bs, co')))"

text \<open>
  \<^verbatim>\<open>rb_write_block\<close>. Each turn of the loop puts what fits, moves
  \<^verbatim>\<open>po\<close> and \<^verbatim>\<open>co\<close> on by \<^verbatim>\<open>res\<close> and adds it to
  \<^verbatim>\<open>written\<close>; when bytes remain it waits for a reader. The loop is
  entered again only when nothing remains.
\<close>

function write_block_loop :: "ringbuffer \<Rightarrow> byte list \<Rightarrow> int \<Rightarrow> stop + (ringbuffer \<times> int)" where
  "write_block_loop rb po written =
     (if length po = 0 then Inr (rb, written)
      else
        case ring_put rb po (length po) of
          Inl e \<Rightarrow> Inl e
        | Inr (rb', n) \<Rightarrow>
            (case to_int n of
               Inl e \<Rightarrow> Inl e
             | Inr res \<Rightarrow>
                 (case int_add written res of
                    Inl e \<Rightarrow> Inl e
                  | Inr written' \<Rightarrow>
                      if nat res < length po then Inl WaitsForever
                      else write_block_loop rb' (drop (nat res) po) written')))"
  by pat_completeness auto
termination
  by (relation "measure (\<lambda>(rb, po, written). length po)") auto

definition rb_write_block :: "handle \<Rightarrow> byte list \<Rightarrow> stop + (handle \<times> int)" where
  "rb_write_block h po =
     (case h of
        None \<Rightarrow> Inr (None, - EFAULT)
      | Some rb \<Rightarrow>
          if length po = 0 then Inr (Some rb, 0)
          else
            (case write_block_loop rb po 0 of
               Inl e \<Rightarrow> Inl e
             | Inr (rb', written) \<Rightarrow> Inr (Some rb', written)))"

text \<open>
  \<^verbatim>\<open>rb_write_nonblock\<close>. The loop has no wait: a turn in which
  \<^verbatim>\<open>_put\<close> stores nothing leaves the state and \<^verbatim>\<open>co\<close> as they
  were, so the next turn is the same and the loop never ends.
\<close>

function write_nonblock_loop :: "ringbuffer \<Rightarrow> byte list \<Rightarrow> nat \<Rightarrow> stop + (ringbuffer \<times> nat)" where
  "write_nonblock_loop rb po written =
     (if length po = 0 then Inr (rb, written)
      else
        case ring_put rb po (length po) of
          Inl e \<Rightarrow> Inl e
        | Inr (rb', n) \<Rightarrow>
            (case to_int n of
               Inl e \<Rightarrow> Inl e
             | Inr res \<Rightarrow>
                 if res = 0 then Inl SpinsForever
                 else write_nonblock_loop rb' (drop (nat res) po) (size_add written (nat res))))"
  by pat_completeness auto
termination
  by (relation "measure (\<lambda>(rb, po, written). length po)") (auto simp: to_int_def split: if_splits)

definition rb_write_nonblock :: "handle \<Rightarrow> byte list \<Rightarrow> stop + (handle \<times> int)" where
  "rb_write_nonblock h po =
     (case h of
        None \<Rightarrow> Inr (None, - EFAULT)
      | Some rb \<Rightarrow>
          if length po > size_rb rb then Inr (Some rb, - E2BIG)
          else if length po \<le> ring_free rb then
            (case write_nonblock_loop rb po 0 of
               Inl e \<Rightarrow> Inl e
             | Inr (rb', written) \<Rightarrow>
                 (case to_int written of
                    Inl e \<Rightarrow> Inl e
                  | Inr res \<Rightarrow> Inr (Some rb', res)))
          else Inr (Some rb, - ENOMEM))"

text \<open>
  \<^verbatim>\<open>rb_read_block\<close>. \<open>out\<close> collects what the turns stored into the
  caller's buffer. A turn that gets nothing waits when nothing was delivered yet and
  leaves the loop otherwise.
\<close>

function read_block_loop ::
  "ringbuffer \<Rightarrow> nat \<Rightarrow> byte list \<Rightarrow> int \<Rightarrow> stop + (ringbuffer \<times> byte list \<times> int)" where
  "read_block_loop rb co out got =
     (if co = 0 then Inr (rb, out, got)
      else
        case ring_get rb co of
          Inl e \<Rightarrow> Inl e
        | Inr (rb', bs, n) \<Rightarrow>
            (case to_int n of
               Inl e \<Rightarrow> Inl e
             | Inr res \<Rightarrow>
                 if res = 0 then (if got = 0 then Inl WaitsForever else Inr (rb', out, got))
                 else
                   (case int_add got res of
                      Inl e \<Rightarrow> Inl e
                    | Inr got' \<Rightarrow> read_block_loop rb' (co - nat res) (out @ bs) got')))"
  by pat_completeness auto
termination
  by (relation "measure (\<lambda>(rb, co, out, got). co)") (auto simp: to_int_def split: if_splits)

definition rb_read_block :: "handle \<Rightarrow> nat \<Rightarrow> stop + (handle \<times> byte list \<times> int)" where
  "rb_read_block h co =
     (case h of
        None \<Rightarrow> Inr (None, [], - EFAULT)
      | Some rb \<Rightarrow>
          (case read_block_loop rb co [] 0 of
             Inl e \<Rightarrow> Inl e
           | Inr (rb', out, got) \<Rightarrow> Inr (Some rb', out, got)))"

text \<open>\<^verbatim>\<open>rb_read_nonblock\<close>.\<close>

function read_nonblock_loop ::
  "ringbuffer \<Rightarrow> nat \<Rightarrow> byte list \<Rightarrow> nat \<Rightarrow> stop + (ringbuffer \<times> byte list \<times> nat)" where
  "read_nonblock_loop rb co out got =
     (if co = 0 then Inr (rb, out, got)
      else
        case ring_get rb co of
          Inl e \<Rightarrow> Inl e
        | Inr (rb', bs, n) \<Rightarrow>
            (case to_int n of
               Inl e \<Rightarrow> Inl e
             | Inr res \<Rightarrow>
                 if res = 0 then Inl SpinsForever
                 else read_nonblock_loop rb' (co - nat res) (out @ bs) (size_add got (nat res))))"
  by pat_completeness auto
termination
  by (relation "measure (\<lambda>(rb, co, out, got). co)") (auto simp: to_int_def split: if_splits)

definition rb_read_nonblock :: "handle \<Rightarrow> nat \<Rightarrow> stop + (handle \<times> byte list \<times> int)" where
  "rb_read_nonblock h co =
     (case h of
        None \<Rightarrow> Inr (None, [], - EFAULT)
      | Some rb \<Rightarrow>
          if co > size_rb rb then Inr (Some rb, [], - E2BIG)
          else if co \<le> ring_used rb then
            (case read_nonblock_loop rb co [] 0 of
               Inl e \<Rightarrow> Inl e
             | Inr (rb', out, got) \<Rightarrow>
                 (case to_int got of
                    Inl e \<Rightarrow> Inl e
                  | Inr res \<Rightarrow> Inr (Some rb', out, res)))
          else Inr (Some rb, [], - EAGAIN))"

subsection \<open>Creation and teardown\<close>

text \<open>
  What \<^verbatim>\<open>rb_init\<close> and \<^verbatim>\<open>rb_destroy\<close> acquire and release: the
  seven synchronisation objects and the allocated block.
\<close>

datatype resource =
    Spinlock | RdMutex | RdCondLock | RdCond | WrMutex | WrCondLock | WrCond | Block

definition primitives :: "resource list" where
  "primitives = [Spinlock, RdMutex, RdCondLock, RdCond, WrMutex, WrCondLock, WrCond]"

text \<open>
  The chain of initialisations of \<^verbatim>\<open>rb_init\<close>: \<open>ercs\<close> are the return codes
  the \<^verbatim>\<open>pthread_*_init\<close> calls give, in call order (a missing one is 0). The
  first code that is not 0 jumps to its \<^verbatim>\<open>undo_\<close> label, which destroys
  the objects initialised before it, last one first. The result is the code and the
  objects destroyed on the way out.
\<close>

fun init_chain :: "resource list \<Rightarrow> int list \<Rightarrow> resource list \<Rightarrow> int \<times> resource list" where
  "init_chain [] ercs held = (0, [])"
| "init_chain (p # ps) [] held = init_chain ps [] (p # held)"
| "init_chain (p # ps) (erc # ercs) held =
     (if erc \<noteq> 0 then (erc, held) else init_chain ps ercs (p # held))"

text \<open>
  \<^verbatim>\<open>rb_init\<close>. \<open>blk\<close> is what \<^verbatim>\<open>malloc\<close> returns: \<open>None\<close> for
  a null pointer, otherwise the fresh block with the indeterminate values of its fields;
  its arena has \<open>sz\<close> bytes. The handle's previous pointer is not read. On a failed
  initialisation the block is neither freed nor is the pointer reset. The third
  component lists the objects destroyed by the undo chain.
\<close>

definition rb_init ::
  "ringbuffer option \<Rightarrow> int list \<Rightarrow> handle \<Rightarrow> nat \<Rightarrow> handle \<times> int \<times> resource list" where
  "rb_init blk ercs h sz =
     (case blk of
        None \<Rightarrow> (None, ENOMEM, [])
      | Some g \<Rightarrow>
          (case init_chain primitives ercs [] of
             (erc, undone) \<Rightarrow>
               if erc \<noteq> 0 then (Some g, erc, undone)
               else (Some (g\<lparr>size_rb := sz, used := 0, tail := 0, lost := 0\<rparr>), 0, [])))"

text \<open>
  \<^verbatim>\<open>rb_destroy\<close>: the new handle, the return code and the resources released,
  in the order of the calls.
\<close>

definition rb_destroy :: "handle \<Rightarrow> handle \<times> int \<times> resource list" where
  "rb_destroy h =
     (case h of
        None \<Rightarrow> (None, EFAULT, [])
      | Some rb \<Rightarrow>
          (None, 0, [WrCond, WrCondLock, WrMutex, RdCond, RdCondLock, RdMutex, Spinlock, Block]))"

subsection \<open>Reset, snapshots and the lost counter\<close>

definition rb_clear :: "handle \<Rightarrow> stop + handle" where
  "rb_clear h =
     (case h of
        None \<Rightarrow> Inl AssertFailed
      | Some rb \<Rightarrow> Inr (Some (rb\<lparr>used := 0, tail := 0, lost := 0\<rparr>)))"

definition rb_get_size :: "handle \<Rightarrow> stop + nat" where
  "rb_get_size h = (case h of None \<Rightarrow> Inl AssertFailed | Some rb \<Rightarrow> Inr (size_rb rb))"

definition rb_get_used :: "handle \<Rightarrow> stop + nat" where
  "rb_get_used h = (case h of None \<Rightarrow> Inl AssertFailed | Some rb \<Rightarrow> Inr (ring_used rb))"

definition rb_get_free :: "handle \<Rightarrow> stop + nat" where
  "rb_get_free h = (case h of None \<Rightarrow> Inl AssertFailed | Some rb \<Rightarrow> Inr (ring_free rb))"

text \<open>
  The three functions of the lost counter return \<^verbatim>\<open>size_t\<close>; on a null
  pointer they return \<^verbatim>\<open>EFAULT\<close> converted to it.
\<close>

definition rb_get_lost :: "handle \<Rightarrow> nat" where
  "rb_get_lost h = (case h of None \<Rightarrow> nat EFAULT | Some rb \<Rightarrow> lost rb)"

definition rb_clear_lost :: "handle \<Rightarrow> handle \<times> nat" where
  "rb_clear_lost h =
     (case h of
        None \<Rightarrow> (None, nat EFAULT)
      | Some rb \<Rightarrow> (Some (rb\<lparr>lost := 0\<rparr>), lost rb))"

definition rb_loose :: "handle \<Rightarrow> nat \<Rightarrow> handle \<times> nat" where
  "rb_loose h loose =
     (case h of
        None \<Rightarrow> (None, nat EFAULT)
      | Some rb \<Rightarrow>
          (Some (rb\<lparr>lost := size_add (lost rb) loose\<rparr>), size_add (lost rb) loose))"

section \<open>The buffer with \<open>head\<close> and \<open>tail\<close> (ringbuffer.c)\<close>

text \<open>
  \<^verbatim>\<open>struct _ringbuffer\<close> of \<^verbatim>\<open>ringbuffer.c\<close>. Its
  \<^verbatim>\<open>rb_init\<close> never stores the \<^verbatim>\<open>size\<close> field, which keeps the
  indeterminate value of the fresh block.
\<close>

record ringbuffer_ht =
  size_ht :: nat
  head_ht :: nat
  tail_ht :: nat
  lost_ht :: nat
  data_ht :: "byte list"

type_synonym handle_ht = "ringbuffer_ht option"

definition avail_ht :: "ringbuffer_ht \<Rightarrow> nat" where
  "avail_ht rb =
     (if tail_ht rb \<le> head_ht rb
      then size_sub (size_ht rb) (size_sub (head_ht rb) (tail_ht rb))
      else size_sub (tail_ht rb) (head_ht rb))"

definition length_ht :: "ringbuffer_ht \<Rightarrow> nat" where
  "length_ht rb =
     (if tail_ht rb \<le> head_ht rb
      then size_sub (head_ht rb) (tail_ht rb)
      else size_sub (size_ht rb) (size_sub (tail_ht rb) (head_ht rb)))"

text \<open>\<^verbatim>\<open>_put\<close> of \<^verbatim>\<open>ringbuffer.c\<close> (it returns nothing).\<close>

definition put_ht :: "ringbuffer_ht \<Rightarrow> byte list \<Rightarrow> nat \<Rightarrow> stop + ringbuffer_ht" where
  "put_ht rb po co =
     (let new_head = size_add (head_ht rb) co in
      if new_head < size_ht rb then
        (case memcpy_in (data_ht rb) (head_ht rb) po co of
           Inl e \<Rightarrow> Inl e
         | Inr d \<Rightarrow> Inr (rb\<lparr>head_ht := new_head, data_ht := d\<rparr>))
      else
        (let i = size_sub (size_ht rb) (head_ht rb) in
         case memcpy_in (data_ht rb) (head_ht rb) po i of
           Inl e \<Rightarrow> Inl e
         | Inr d \<Rightarrow>
             (case memcpy_in d 0 (drop i po) (size_sub new_head (size_ht rb)) of
                Inl e \<Rightarrow> Inl e
              | Inr d' \<Rightarrow> Inr (rb\<lparr>head_ht := size_sub new_head (size_ht rb), data_ht := d'\<rparr>))))"

text \<open>\<^verbatim>\<open>_get\<close> of \<^verbatim>\<open>ringbuffer.c\<close>.\<close>

definition get_ht :: "ringbuffer_ht \<Rightarrow> nat \<Rightarrow> stop + (ringbuffer_ht \<times> byte list \<times> nat)" where
  "get_ht rb co0 =
     (if tail_ht rb \<le> head_ht rb then
        (let avail = size_sub (head_ht rb) (tail_ht rb);
             co = (if co0 > avail then avail else co0)
         in case memcpy_out (data_ht rb) (tail_ht rb) co co0 of
              Inl e \<Rightarrow> Inl e
            | Inr bs \<Rightarrow> Inr (rb\<lparr>tail_ht := size_add (tail_ht rb) co\<rparr>, bs, co))
      else
        (let avail = head_ht rb;
             co = (if co0 > avail then avail else co0)
         in case memcpy_out (data_ht rb) 0 co co0 of
              Inl e \<Rightarrow> Inl e
            | Inr bs \<Rightarrow> Inr (rb\<lparr>tail_ht := co\<rparr>, bs, co)))"

text \<open>\<^verbatim>\<open>_rb_write\<close>: the request is cut down to the free space.\<close>

definition rb_write_ht :: "ringbuffer_ht \<Rightarrow> byte list \<Rightarrow> stop + (ringbuffer_ht \<times> int)" where
  "rb_write_ht rb po =
     (let avail = avail_ht rb;
          co = (if length po > avail then avail else length po)
      in case (if co > 0 then put_ht rb po co else Inr rb) of
           Inl e \<Rightarrow> Inl e
         | Inr rb' \<Rightarrow> (case to_int co of Inl e \<Rightarrow> Inl e | Inr res \<Rightarrow> Inr (rb', res)))"

text \<open>
  \<^verbatim>\<open>_rb_read\<close>: the loop of \<^verbatim>\<open>_get\<close> calls, which cannot end when a
  call gets nothing; the function returns \<^verbatim>\<open>length\<close>, the number of bytes
  that were stored when it was entered.
\<close>

function read_loop_ht ::
  "ringbuffer_ht \<Rightarrow> nat \<Rightarrow> byte list \<Rightarrow> stop + (ringbuffer_ht \<times> byte list)" where
  "read_loop_ht rb co out =
     (if co = 0 then Inr (rb, out)
      else
        case get_ht rb co of
          Inl e \<Rightarrow> Inl e
        | Inr (rb', bs, cr) \<Rightarrow>
            if cr = 0 then Inl SpinsForever
            else read_loop_ht rb' (co - cr) (out @ bs))"
  by pat_completeness auto
termination
  by (relation "measure (\<lambda>(rb, co, out). co)") auto

definition rb_read_ht :: "ringbuffer_ht \<Rightarrow> nat \<Rightarrow> stop + (ringbuffer_ht \<times> byte list \<times> int)" where
  "rb_read_ht rb co0 =
     (let len = length_ht rb;
          co = (if co0 > len then len else co0)
      in case read_loop_ht rb co [] of
           Inl e \<Rightarrow> Inl e
         | Inr (rb', out) \<Rightarrow>
             (case to_int len of Inl e \<Rightarrow> Inl e | Inr res \<Rightarrow> Inr (rb', out, res)))"

definition rb_write_asy :: "handle_ht \<Rightarrow> byte list \<Rightarrow> stop + (handle_ht \<times> int)" where
  "rb_write_asy h po =
     (case h of
        None \<Rightarrow> Inr (None, - EFAULT)
      | Some rb \<Rightarrow>
          (case rb_write_ht rb po of
             Inl e \<Rightarrow> Inl e
           | Inr (rb', res) \<Rightarrow> Inr (Some rb', res)))"

definition rb_read_asy :: "handle_ht \<Rightarrow> nat \<Rightarrow> stop + (handle_ht \<times> byte list \<times> int)" where
  "rb_read_asy h co =
     (case h of
        None \<Rightarrow> Inr (None, [], - EFAULT)
      | Some rb \<Rightarrow>
          (case rb_read_ht rb co of
             Inl e \<Rightarrow> Inl e
           | Inr (rb', out, res) \<Rightarrow> Inr (Some rb', out, res)))"

text \<open>
  \<^verbatim>\<open>rb_init\<close> of \<^verbatim>\<open>ringbuffer.c\<close>: a handle whose pointer is set is
  refused; a failed initialisation frees the block and resets the pointer.
\<close>

definition rb_init_ht ::
  "ringbuffer_ht option \<Rightarrow> int list \<Rightarrow> handle_ht \<Rightarrow> nat \<Rightarrow> handle_ht \<times> int \<times> resource list" where
  "rb_init_ht blk ercs h sz =
     (case h of
        Some rb \<Rightarrow> (Some rb, EFAULT, [])
      | None \<Rightarrow>
          (case blk of
             None \<Rightarrow> (None, ENOMEM, [])
           | Some g \<Rightarrow>
               (case init_chain primitives ercs [] of
                  (erc, undone) \<Rightarrow>
                    if erc \<noteq> 0 then (None, erc, undone @ [Block])
                    else (Some (g\<lparr>head_ht := 0, tail_ht := 0, lost_ht := 0\<rparr>), 0, []))))"

text \<open>
  \<^verbatim>\<open>rb_destroy\<close> of \<^verbatim>\<open>ringbuffer.c\<close>: the test of the pointer returns
  \<^verbatim>\<open>EFAULT\<close> when the pointer is set; with a null pointer the first
  \<^verbatim>\<open>pthread_cond_destroy\<close> is handed an address inside the null page.
\<close>

definition rb_destroy_ht :: "handle_ht \<Rightarrow> stop + (handle_ht \<times> int \<times> resource list)" where
  "rb_destroy_ht h =
     (case h of
        Some rb \<Rightarrow> Inr (Some rb, EFAULT, [])
      | None \<Rightarrow> Inl NullDeref)"

definition rb_clear_ht :: "handle_ht \<Rightarrow> stop + handle_ht" where
  "rb_clear_ht h =
     (case h of
        None \<Rightarrow> Inl AssertFailed
      | Some rb \<Rightarrow> Inr (Some (rb\<lparr>head_ht := 0, tail_ht := 0, lost_ht := 0\<rparr>)))"

definition rb_get_lost_ht :: "handle_ht \<Rightarrow> nat" where
  "rb_get_lost_ht h = (case h of None \<Rightarrow> nat EFAULT | Some rb \<Rightarrow> lost_ht rb)"

definition rb_clear_lost_ht :: "handle_ht \<Rightarrow> handle_ht \<times> nat" where
  "rb_clear_lost_ht h =
     (case h of
        None \<Rightarrow> (None, nat EFAULT)
      | Some rb \<Rightarrow> (Some (rb\<lparr>lost_ht := 0\<rparr>), lost_ht rb))"

text \<open>
  \<^verbatim>\<open>rb_loose_data\<close>: the sum is returned and never stored into
  \<^verbatim>\<open>_rb->lost\<close>.
\<close>

definition rb_loose_data :: "handle_ht \<Rightarrow> nat \<Rightarrow> handle_ht \<times> nat" where
  "rb_loose_data h loose =
     (case h of
        None \<Rightarrow> (None, nat EFAULT)
      | Some rb \<Rightarrow> (Some rb, size_add (lost_ht rb) loose))"

section \<open>Notions used in the statements\<close>

text \<open>
  The bytes stored in the buffer, oldest first: \<open>used\<close> bytes from index
  \<open>tail\<close> on, continuing at index 0 after the last byte of the arena.
\<close>

definition ring_contents :: "ringbuffer \<Rightarrow> byte list" where
  "ring_contents rb = take (used rb) (drop (tail rb) (data rb @ data rb))"

text \<open>The two invariants of the data model, with the case of capacity 0.\<close>

definition rb_inv :: "ringbuffer \<Rightarrow> bool" where
  "rb_inv rb =
     (used rb \<le> size_rb rb \<and> (tail rb < size_rb rb \<or> size_rb rb = 0 \<and> tail rb = 0))"

text \<open>
  A well-formed buffer keeps the invariants, its arena has \<open>size_rb\<close> bytes, and its
  capacity is at most \<^verbatim>\<open>INT_MAX\<close>, so that every count the functions return
  fits their result type \<^verbatim>\<open>int\<close>.
\<close>

definition rb_wf :: "ringbuffer \<Rightarrow> bool" where
  "rb_wf rb = (rb_inv rb \<and> length (data rb) = size_rb rb \<and> size_rb rb < 2 ^ 31)"

text \<open>The state after the \<open>n\<close> oldest bytes have left the buffer.\<close>

definition consumed :: "ringbuffer \<Rightarrow> nat \<Rightarrow> ringbuffer" where
  "consumed rb n = rb\<lparr>used := used rb - n, tail := (tail rb + n) mod size_rb rb\<rparr>"

text \<open>
  The write position, which the source calls \<^verbatim>\<open>__head\<close>, and the state after
  the bytes \<open>po\<close> have been stored from there on without passing the end of the
  arena.
\<close>

definition write_pos :: "ringbuffer \<Rightarrow> nat" where
  "write_pos rb = (tail rb + used rb) mod size_rb rb"

definition stored :: "ringbuffer \<Rightarrow> byte list \<Rightarrow> ringbuffer" where
  "stored rb po =
     rb\<lparr>used := used rb + length po,
        data := take (write_pos rb) (data rb) @ po @ drop (write_pos rb + length po) (data rb)\<rparr>"

text \<open>
  The handles that calls which return can produce: a successful \<^verbatim>\<open>rb_init\<close>
  for a capacity that is a \<^verbatim>\<open>size_t\<close>, on any handle, and from there every
  call of the interface that returns. The two critical sections of the blocking
  transfers, \<^verbatim>\<open>_put\<close> and \<^verbatim>\<open>_get\<close> under the spin lock, are steps
  of their own: they are the states another thread can see while a blocking call is
  under way. An \<^verbatim>\<open>rb_init\<close> that fails after the allocation is left out: it
  leaves the handle pointing to a block whose fields were never written.
\<close>

inductive reachable :: "handle \<Rightarrow> bool" where
  created: "sz < 2 ^ 64 \<Longrightarrow> rb_init blk ercs h sz = (h', 0, rs) \<Longrightarrow> reachable h'"
| destroyed: "reachable h \<Longrightarrow> rb_destroy h = (h', erc, rs) \<Longrightarrow> reachable h'"
| written_block: "reachable h \<Longrightarrow> rb_write_block h po = Inr (h', r) \<Longrightarrow> reachable h'"
| written_nonblock: "reachable h \<Longrightarrow> rb_write_nonblock h po = Inr (h', r) \<Longrightarrow> reachable h'"
| read_block: "reachable h \<Longrightarrow> rb_read_block h co = Inr (h', bs, r) \<Longrightarrow> reachable h'"
| read_nonblock: "reachable h \<Longrightarrow> rb_read_nonblock h co = Inr (h', bs, r) \<Longrightarrow> reachable h'"
| cleared: "reachable h \<Longrightarrow> rb_clear h = Inr h' \<Longrightarrow> reachable h'"
| lost_cleared: "reachable h \<Longrightarrow> rb_clear_lost h = (h', n) \<Longrightarrow> reachable h'"
| loosed: "reachable h \<Longrightarrow> rb_loose h loose = (h', n) \<Longrightarrow> reachable h'"
| put_section: "reachable (Some rb) \<Longrightarrow> ring_put rb po co = Inr (rb', n) \<Longrightarrow> reachable (Some rb')"
| get_section: "reachable (Some rb) \<Longrightarrow> ring_get rb co = Inr (rb', bs, n) \<Longrightarrow> reachable (Some rb')"

definition handle_ok :: "handle \<Rightarrow> bool" where
  "handle_ok h = (case h of None \<Rightarrow> True | Some rb \<Rightarrow> rb_inv rb \<and> size_rb rb < 2 ^ 64)"

text \<open>
  The loops are unfolded by hand in the proofs; their equations are taken out of the
  simplifier's rules.
\<close>

declare write_block_loop.simps [simp del]
declare write_nonblock_loop.simps [simp del]
declare read_block_loop.simps [simp del]
declare read_nonblock_loop.simps [simp del]
declare read_loop_ht.simps [simp del]

text \<open>The unfolding rules that evaluate the model on concrete inputs.\<close>

lemmas run_defs =
  rb_init_def rb_destroy_def primitives_def rb_write_block_def write_block_loop.simps
  rb_write_nonblock_def write_nonblock_loop.simps rb_read_block_def read_block_loop.simps
  rb_read_nonblock_def read_nonblock_loop.simps ring_put_def ring_get_def ring_free_def
  ring_used_def rb_clear_def rb_get_lost_def rb_clear_lost_def rb_loose_def
  size_add_def size_sub_def to_int_def int_add_def memcpy_in_def memcpy_out_def Let_def
  EFAULT_def ENOMEM_def E2BIG_def EAGAIN_def

lemmas run_defs_ht =
  rb_init_ht_def rb_destroy_ht_def primitives_def rb_write_asy_def rb_write_ht_def
  rb_read_asy_def rb_read_ht_def read_loop_ht.simps put_ht_def get_ht_def avail_ht_def
  length_ht_def rb_get_lost_ht_def rb_clear_lost_ht_def rb_loose_data_def
  size_add_def size_sub_def to_int_def memcpy_in_def memcpy_out_def Let_def
  EFAULT_def ENOMEM_def E2BIG_def EAGAIN_def

section \<open>Invariants\<close>

text \<open>
  \<^verbatim>\<open>_put\<close> and \<^verbatim>\<open>_get\<close> never return more than they were asked
  for, whatever the state.
\<close>

lemma ring_put_count_le: "ring_put rb po co = Inr (rb', n) \<Longrightarrow> n \<le> co"
  unfolding ring_put_def Let_def
  by (auto split: if_splits sum.splits)

lemma ring_get_count_le: "ring_get rb co = Inr (rb', bs, n) \<Longrightarrow> n \<le> co"
  unfolding ring_get_def Let_def
  by (auto simp: memcpy_out_def split: if_splits sum.splits)

lemma memcpy_in_length: "memcpy_in d off po n = Inr d' \<Longrightarrow> length d' = length d"
  by (auto simp: memcpy_in_def split: if_splits)

lemma ring_put_inv:
  "rb_inv rb \<Longrightarrow> ring_put rb po co = Inr (rb', n) \<Longrightarrow>
     rb_inv rb' \<and> size_rb rb' = size_rb rb \<and> n \<le> co"
  unfolding ring_put_def Let_def rb_inv_def size_sub_def size_add_def
  by (auto split: if_splits sum.splits intro: order_trans [OF mod_less_eq_dividend])

lemma ring_put_length:
  "ring_put rb po co = Inr (rb', n) \<Longrightarrow> length (data rb') = length (data rb)"
  unfolding ring_put_def Let_def
  by (auto split: if_splits sum.splits dest!: memcpy_in_length)

lemma ring_get_data: "ring_get rb co = Inr (rb', bs, n) \<Longrightarrow> data rb' = data rb"
  unfolding ring_get_def Let_def
  by (auto split: if_splits sum.splits)

lemma ring_get_inv:
  assumes inv: "rb_inv rb" and sz: "size_rb rb < 2 ^ 64"
    and g: "ring_get rb co = Inr (rb', bs, n)"
  shows "rb_inv rb' \<and> size_rb rb' = size_rb rb \<and> n \<le> co"
proof -
  define c where "c = (if co > used rb then used rb else co)"
  show ?thesis
  proof (cases "c = 0")
    case True
    with g inv show ?thesis by (simp add: ring_get_def Let_def c_def split: if_splits)
  next
    case False
    then have upos: "0 < used rb" and cpos: "0 < c" and cle: "c \<le> used rb" "c \<le> co"
      by (auto simp: c_def split: if_splits)
    with inv have spos: "0 < size_rb rb" and t: "tail rb < size_rb rb"
      and u: "used rb \<le> size_rb rb"
      by (auto simp: rb_inv_def)
    define nt where "nt = size_add (tail rb) c mod size_rb rb"
    have ntlt: "nt < size_rb rb" using spos by (simp add: nt_def)
    show ?thesis
    proof (cases "nt > tail rb")
      case True
      with g False spos have "rb' = rb\<lparr>used := size_sub (used rb) c, tail := nt\<rparr>" "n = c"
        by (auto simp: ring_get_def Let_def c_def nt_def split: if_splits sum.splits)
      with cle u ntlt show ?thesis by (simp add: rb_inv_def size_sub_def)
    next
      case nle: False
      have ge: "size_rb rb \<le> tail rb + c"
      proof (rule ccontr)
        assume "\<not> size_rb rb \<le> tail rb + c"
        then have "tail rb + c < size_rb rb" by simp
        with sz have "nt = tail rb + c" by (simp add: nt_def size_add_def)
        with cpos nle show False by simp
      qed
      from g False spos nle
      have "rb' = rb\<lparr>used := size_sub (used rb) (size_sub (size_rb rb) (tail rb)), tail := 0\<rparr>"
        "n = size_sub (size_rb rb) (tail rb)" "n \<le> co"
        by (auto simp: ring_get_def Let_def c_def nt_def memcpy_out_def
            split: if_splits sum.splits)
      with cle u t ge spos show ?thesis by (auto simp: rb_inv_def size_sub_def)
    qed
  qed
qed

lemma write_block_loop_inv:
  "rb_inv rb \<Longrightarrow> write_block_loop rb po w = Inr (rb', w') \<Longrightarrow>
     rb_inv rb' \<and> size_rb rb' = size_rb rb \<and> length (data rb') = length (data rb)"
proof (induction rb po w rule: write_block_loop.induct)
  case (1 rb po written)
  show ?case
  proof (cases "length po = 0")
    case True
    with "1.prems" show ?thesis by (simp add: write_block_loop.simps)
  next
    case False
    with "1.prems"(2) obtain rb1 n res w1 where
      p: "ring_put rb po (length po) = Inr (rb1, n)" and ti: "to_int n = Inr res" and
      ia: "int_add written res = Inr w1" and nw: "\<not> nat res < length po" and
      rec: "write_block_loop rb1 (drop (nat res) po) w1 = Inr (rb', w')"
      by (subst (asm) write_block_loop.simps) (auto split: sum.splits if_splits)
    from ring_put_inv [OF "1.prems"(1) p] have i1: "rb_inv rb1" and s1: "size_rb rb1 = size_rb rb"
      by simp_all
    from "1.IH" [OF False p refl ti ia nw i1 rec] s1 ring_put_length [OF p]
    show ?thesis by simp
  qed
qed

lemma write_nonblock_loop_inv:
  "rb_inv rb \<Longrightarrow> write_nonblock_loop rb po w = Inr (rb', w') \<Longrightarrow>
     rb_inv rb' \<and> size_rb rb' = size_rb rb \<and> length (data rb') = length (data rb)"
proof (induction rb po w rule: write_nonblock_loop.induct)
  case (1 rb po written)
  show ?case
  proof (cases "length po = 0")
    case True
    with "1.prems" show ?thesis by (simp add: write_nonblock_loop.simps)
  next
    case False
    with "1.prems"(2) obtain rb1 n res where
      p: "ring_put rb po (length po) = Inr (rb1, n)" and ti: "to_int n = Inr res" and
      nz: "res \<noteq> 0" and
      rec: "write_nonblock_loop rb1 (drop (nat res) po) (size_add written (nat res)) = Inr (rb', w')"
      by (subst (asm) write_nonblock_loop.simps) (auto split: sum.splits if_splits)
    from ring_put_inv [OF "1.prems"(1) p] have i1: "rb_inv rb1" and s1: "size_rb rb1 = size_rb rb"
      by simp_all
    from "1.IH" [OF False p refl ti nz i1 rec] s1 ring_put_length [OF p]
    show ?thesis by simp
  qed
qed

lemma read_block_loop_inv:
  "rb_inv rb \<Longrightarrow> size_rb rb < 2 ^ 64 \<Longrightarrow>
   read_block_loop rb co out got = Inr (rb', out', got') \<Longrightarrow>
     rb_inv rb' \<and> size_rb rb' = size_rb rb \<and> data rb' = data rb"
proof (induction rb co out got rule: read_block_loop.induct)
  case (1 rb co out got)
  show ?case
  proof (cases "co = 0")
    case True
    with "1.prems" show ?thesis by (simp add: read_block_loop.simps)
  next
    case False
    with "1.prems"(3) obtain rb1 bs n res where
      g: "ring_get rb co = Inr (rb1, bs, n)" and ti: "to_int n = Inr res" and
      rest: "(res = 0 \<and> rb' = rb1) \<or>
             (res \<noteq> 0 \<and> (\<exists>g1. int_add got res = Inr g1 \<and>
                read_block_loop rb1 (co - nat res) (out @ bs) g1 = Inr (rb', out', got')))"
      by (subst (asm) read_block_loop.simps) (auto split: sum.splits if_splits)
    from ring_get_inv [OF "1.prems"(1,2) g] have i1: "rb_inv rb1" and s1: "size_rb rb1 = size_rb rb"
      by simp_all
    from rest show ?thesis
    proof
      assume "res = 0 \<and> rb' = rb1"
      with i1 s1 ring_get_data [OF g] show ?thesis by simp
    next
      assume "res \<noteq> 0 \<and> (\<exists>g1. int_add got res = Inr g1 \<and>
                read_block_loop rb1 (co - nat res) (out @ bs) g1 = Inr (rb', out', got'))"
      then obtain g1 where nz: "res \<noteq> 0" and ia: "int_add got res = Inr g1" and
        rec: "read_block_loop rb1 (co - nat res) (out @ bs) g1 = Inr (rb', out', got')"
        by blast
      from "1.IH" [OF False g refl refl ti nz ia i1 _ rec] "1.prems"(2) s1
        ring_get_data [OF g]
      show ?thesis by simp
    qed
  qed
qed

lemma read_nonblock_loop_inv:
  "rb_inv rb \<Longrightarrow> size_rb rb < 2 ^ 64 \<Longrightarrow>
   read_nonblock_loop rb co out got = Inr (rb', out', got') \<Longrightarrow>
     rb_inv rb' \<and> size_rb rb' = size_rb rb \<and> data rb' = data rb"
proof (induction rb co out got rule: read_nonblock_loop.induct)
  case (1 rb co out got)
  show ?case
  proof (cases "co = 0")
    case True
    with "1.prems" show ?thesis by (simp add: read_nonblock_loop.simps)
  next
    case False
    with "1.prems"(3) obtain rb1 bs n res where
      g: "ring_get rb co = Inr (rb1, bs, n)" and ti: "to_int n = Inr res" and
      nz: "res \<noteq> 0" and
      rec: "read_nonblock_loop rb1 (co - nat res) (out @ bs) (size_add got (nat res))
              = Inr (rb', out', got')"
      by (subst (asm) read_nonblock_loop.simps) (auto split: sum.splits if_splits)
    from ring_get_inv [OF "1.prems"(1,2) g] have i1: "rb_inv rb1" and s1: "size_rb rb1 = size_rb rb"
      by simp_all
    from "1.IH" [OF False g refl refl ti nz i1 _ rec] "1.prems"(2) s1 ring_get_data [OF g]
    show ?thesis by simp
  qed
qed

text \<open>
  Well-formed buffers: \<^verbatim>\<open>rb_init\<close> makes one when the block it is given holds
  \<open>sz\<close> arena bytes and \<open>sz\<close> is at most \<^verbatim>\<open>INT_MAX\<close>, and every call that
  returns keeps a buffer well-formed.
\<close>

lemma rb_init_wf:
  assumes "length (data g) = sz" and "sz < 2 ^ 31"
    and "rb_init (Some g) ercs h sz = (h', 0, rs)"
  shows "h' = Some (g\<lparr>size_rb := sz, used := 0, tail := 0, lost := 0\<rparr>) \<and>
         rb_wf (g\<lparr>size_rb := sz, used := 0, tail := 0, lost := 0\<rparr>)"
  using assms
  by (auto simp: rb_init_def rb_wf_def rb_inv_def split: prod.splits if_splits)

lemma rb_wf_kept:
  assumes wf: "rb_wf rb"
  shows "rb_write_block (Some rb) po = Inr (h', r) \<Longrightarrow> \<exists>rb'. h' = Some rb' \<and> rb_wf rb'"
    and "rb_write_nonblock (Some rb) po = Inr (h', r) \<Longrightarrow> \<exists>rb'. h' = Some rb' \<and> rb_wf rb'"
    and "rb_read_block (Some rb) co = Inr (h', bs, r) \<Longrightarrow> \<exists>rb'. h' = Some rb' \<and> rb_wf rb'"
    and "rb_read_nonblock (Some rb) co = Inr (h', bs, r) \<Longrightarrow> \<exists>rb'. h' = Some rb' \<and> rb_wf rb'"
    and "rb_clear (Some rb) = Inr h' \<Longrightarrow> \<exists>rb'. h' = Some rb' \<and> rb_wf rb'"
    and "rb_clear_lost (Some rb) = (h', n) \<Longrightarrow> \<exists>rb'. h' = Some rb' \<and> rb_wf rb'"
    and "rb_loose (Some rb) loose = (h', n) \<Longrightarrow> \<exists>rb'. h' = Some rb' \<and> rb_wf rb'"
proof -
  from wf have i: "rb_inv rb" and l: "length (data rb) = size_rb rb"
    and b: "size_rb rb < 2 ^ 31" and b64: "size_rb rb < 2 ^ 64"
  proof -
    from wf show "rb_inv rb" "length (data rb) = size_rb rb" "size_rb rb < 2 ^ 31"
      by (simp_all add: rb_wf_def)
    then have "size_rb rb < (2 ^ 31 :: nat)" by simp
    also have "(2 ^ 31 :: nat) < 2 ^ 64" by simp
    finally show "size_rb rb < 2 ^ 64" .
  qed
  show "rb_write_block (Some rb) po = Inr (h', r) \<Longrightarrow> \<exists>rb'. h' = Some rb' \<and> rb_wf rb'"
    using wf l b
    by (auto simp: rb_write_block_def rb_wf_def split: if_splits sum.splits
        dest!: write_block_loop_inv [OF i])
  show "rb_write_nonblock (Some rb) po = Inr (h', r) \<Longrightarrow> \<exists>rb'. h' = Some rb' \<and> rb_wf rb'"
    using wf l b
    by (auto simp: rb_write_nonblock_def rb_wf_def split: if_splits sum.splits
        dest!: write_nonblock_loop_inv [OF i])
  show "rb_read_block (Some rb) co = Inr (h', bs, r) \<Longrightarrow> \<exists>rb'. h' = Some rb' \<and> rb_wf rb'"
    using wf l b
    by (auto simp: rb_read_block_def rb_wf_def split: if_splits sum.splits
        dest!: read_block_loop_inv [OF i b64])
  show "rb_read_nonblock (Some rb) co = Inr (h', bs, r) \<Longrightarrow> \<exists>rb'. h' = Some rb' \<and> rb_wf rb'"
    using wf l b
    by (auto simp: rb_read_nonblock_def rb_wf_def split: if_splits sum.splits
        dest!: read_nonblock_loop_inv [OF i b64])
  show "rb_clear (Some rb) = Inr h' \<Longrightarrow> \<exists>rb'. h' = Some rb' \<and> rb_wf rb'"
    using wf by (auto simp: rb_clear_def rb_wf_def rb_inv_def)
  show "rb_clear_lost (Some rb) = (h', n) \<Longrightarrow> \<exists>rb'. h' = Some rb' \<and> rb_wf rb'"
    using wf by (auto simp: rb_clear_lost_def rb_wf_def rb_inv_def)
  show "rb_loose (Some rb) loose = (h', n) \<Longrightarrow> \<exists>rb'. h' = Some rb' \<and> rb_wf rb'"
    using wf by (auto simp: rb_loose_def rb_wf_def rb_inv_def)
qed

lemma reachable_ok: "reachable h \<Longrightarrow> handle_ok h"
proof (induction rule: reachable.induct)
  case (created sz blk ercs h h' rs)
  then show ?case
    by (auto simp: rb_init_def handle_ok_def rb_inv_def split: option.splits prod.splits if_splits)
next
  case (destroyed h h' erc rs)
  then show ?case by (auto simp: rb_destroy_def handle_ok_def split: option.splits)
next
  case (written_block h po h' r)
  then show ?case
    by (auto simp: rb_write_block_def handle_ok_def split: option.splits if_splits sum.splits
        dest: write_block_loop_inv)
next
  case (written_nonblock h po h' r)
  then show ?case
    by (auto simp: rb_write_nonblock_def handle_ok_def split: option.splits if_splits sum.splits
        dest: write_nonblock_loop_inv)
next
  case (read_block h co h' bs r)
  then show ?case
    by (auto simp: rb_read_block_def handle_ok_def split: option.splits if_splits sum.splits
        dest: read_block_loop_inv)
next
  case (read_nonblock h co h' bs r)
  then show ?case
    by (auto simp: rb_read_nonblock_def handle_ok_def split: option.splits if_splits sum.splits
        dest: read_nonblock_loop_inv)
next
  case (cleared h h')
  then show ?case
    by (auto simp: rb_clear_def handle_ok_def rb_inv_def split: option.splits)
next
  case (lost_cleared h h' n)
  then show ?case
    by (auto simp: rb_clear_lost_def handle_ok_def rb_inv_def split: option.splits)
next
  case (loosed h loose h' n)
  then show ?case
    by (auto simp: rb_loose_def handle_ok_def rb_inv_def split: option.splits)
next
  case (put_section rb po co rb' n)
  then show ?case by (auto simp: handle_ok_def dest: ring_put_inv)
next
  case (get_section rb co rb' bs n)
  then show ?case by (auto simp: handle_ok_def dest: ring_get_inv)
qed

text \<open>
  Claim C4, as amended. After every call that returns, on a handle made by a
  successful \<^verbatim>\<open>rb_init\<close>, the buffer the handle points to has
  \<open>used \<le> size\<close>, and \<open>tail < size\<close>, or \<open>tail = 0\<close> when the size is 0.
\<close>

theorem invariants_after_every_call:
  "reachable h \<Longrightarrow> h = Some rb \<Longrightarrow>
     used rb \<le> size_rb rb \<and> (tail rb < size_rb rb \<or> size_rb rb = 0 \<and> tail rb = 0)"
  using reachable_ok [of h] by (simp add: handle_ok_def rb_inv_def)

text \<open>
  A witness for C4: a buffer of 4 bytes is created, three bytes are written without
  blocking and two of them are read.
\<close>

theorem invariants_after_every_call_witness:
  "reachable (Some \<lparr>size_rb = 4, used = 1, tail = 2, lost = 0, data = [1, 2, 3, 0]\<rparr>) \<and>
   used \<lparr>size_rb = 4, used = 1, tail = 2, lost = 0, data = [1, 2, 3, 0]\<rparr>
     \<le> size_rb \<lparr>size_rb = 4, used = 1, tail = 2, lost = 0, data = [1, 2, 3, 0]\<rparr> \<and>
   tail \<lparr>size_rb = 4, used = 1, tail = 2, lost = 0, data = [1, 2, 3, 0]\<rparr>
     < size_rb \<lparr>size_rb = 4, used = 1, tail = 2, lost = 0, data = [1, 2, 3, 0]\<rparr>"
proof -
  have "rb_init (Some \<lparr>size_rb = 9, used = 9, tail = 9, lost = 9, data = [0, 0, 0, 0]\<rparr>) [] None 4
          = (Some \<lparr>size_rb = 4, used = 0, tail = 0, lost = 0, data = [0, 0, 0, 0]\<rparr>, 0, [])"
    by (simp add: run_defs)
  then have r0: "reachable (Some \<lparr>size_rb = 4, used = 0, tail = 0, lost = 0, data = [0, 0, 0, 0]\<rparr>)"
    by (rule reachable.created [rotated]) simp
  have "rb_write_nonblock (Some \<lparr>size_rb = 4, used = 0, tail = 0, lost = 0, data = [0, 0, 0, 0]\<rparr>)
          [1, 2, 3]
          = Inr (Some \<lparr>size_rb = 4, used = 3, tail = 0, lost = 0, data = [1, 2, 3, 0]\<rparr>, 3)"
    by (simp add: run_defs)
  with r0 have r1: "reachable (Some \<lparr>size_rb = 4, used = 3, tail = 0, lost = 0, data = [1, 2, 3, 0]\<rparr>)"
    by (rule reachable.written_nonblock)
  have "rb_read_nonblock (Some \<lparr>size_rb = 4, used = 3, tail = 0, lost = 0, data = [1, 2, 3, 0]\<rparr>) 2
          = Inr (Some \<lparr>size_rb = 4, used = 1, tail = 2, lost = 0, data = [1, 2, 3, 0]\<rparr>, [1, 2], 2)"
    by (simp add: run_defs)
  with r1 have r2: "reachable (Some \<lparr>size_rb = 4, used = 1, tail = 2, lost = 0, data = [1, 2, 3, 0]\<rparr>)"
    by (rule reachable.read_nonblock)
  from r2 invariants_after_every_call [OF r2 refl] show ?thesis by simp
qed

text \<open>
  The counterexample to C4 as stated: \<^verbatim>\<open>rb_init\<close> accepts the capacity 0, and
  in the buffer it makes \<open>tail\<close> is not below the capacity.
\<close>

theorem zero_capacity_tail_not_below_size:
  "rb_init (Some \<lparr>size_rb = 9, used = 9, tail = 9, lost = 9, data = []\<rparr>) [] None 0
     = (Some \<lparr>size_rb = 0, used = 0, tail = 0, lost = 0, data = []\<rparr>, 0, []) \<and>
   reachable (Some \<lparr>size_rb = 0, used = 0, tail = 0, lost = 0, data = []\<rparr>) \<and>
   \<not> tail \<lparr>size_rb = 0, used = 0, tail = 0, lost = 0, data = []\<rparr>
       < size_rb \<lparr>size_rb = 0, used = 0, tail = 0, lost = 0, data = []\<rparr>"
proof -
  have i: "rb_init (Some \<lparr>size_rb = 9, used = 9, tail = 9, lost = 9, data = []\<rparr>) [] None 0
     = (Some \<lparr>size_rb = 0, used = 0, tail = 0, lost = 0, data = []\<rparr>, 0, [])"
    by (simp add: run_defs)
  then have "reachable (Some \<lparr>size_rb = 0, used = 0, tail = 0, lost = 0, data = []\<rparr>)"
    by (rule reachable.created [rotated]) simp
  with i show ?thesis by simp
qed

section \<open>Reading\<close>

text \<open>
  One call of \<^verbatim>\<open>_get\<close> on a well-formed buffer that holds data: it delivers the
  oldest bytes up to the request, the occupancy and the end of the arena, whichever comes
  first.
\<close>

lemma ring_get_step:
  assumes wf: "rb_wf rb" and c: "0 < co" "0 < used rb"
  defines "n \<equiv> min (min co (used rb)) (size_rb rb - tail rb)"
  shows "ring_get rb co =
           Inr (rb\<lparr>used := used rb - n, tail := (tail rb + n) mod size_rb rb\<rparr>,
                take n (ring_contents rb), n)"
    and "0 < n" and "n \<le> co" and "n \<le> used rb"
proof -
  from wf c have s: "0 < size_rb rb" "tail rb < size_rb rb" "used rb \<le> size_rb rb"
    "length (data rb) = size_rb rb" "size_rb rb < 2 ^ 31"
    by (auto simp: rb_wf_def rb_inv_def)
  define m where "m = min co (used rb)"
  have m: "0 < m" "m \<le> used rb" "m \<le> co" "(if co > used rb then used rb else co) = m"
    using c by (auto simp: m_def)
  show "0 < n" "n \<le> co" "n \<le> used rb" using c s by (auto simp: n_def)
  have big: "tail rb + m < 2 ^ 64"
  proof -
    have "tail rb + m < 2 ^ 31 + (2 ^ 31 :: nat)" using s m by linarith
    also have "\<dots> < (2 ^ 64 :: nat)" by simp
    finally show ?thesis .
  qed
  have cont: "take n (ring_contents rb) = take n (drop (tail rb) (data rb))"
    using s m by (simp add: ring_contents_def n_def m_def min_def)
  show "ring_get rb co =
           Inr (rb\<lparr>used := used rb - n, tail := (tail rb + n) mod size_rb rb\<rparr>,
                take n (ring_contents rb), n)"
  proof (cases "tail rb + m < size_rb rb")
    case True
    then have n: "n = m" by (simp add: n_def m_def)
    from True m big s show ?thesis
      unfolding cont unfolding n
      by (simp add: ring_get_def Let_def size_add_def size_sub_def memcpy_out_def)
  next
    case False
    then have n: "n = size_rb rb - tail rb" by (simp add: n_def m_def)
    have "(tail rb + m) mod size_rb rb = tail rb + m - size_rb rb"
      using False s m by (simp add: mod_if)
    with False s m have nt: "\<not> tail rb < size_add (tail rb) m mod size_rb rb"
      using big by (simp add: size_add_def)
    from False m s nt show ?thesis
      unfolding cont unfolding n
      by (simp add: ring_get_def Let_def size_sub_def memcpy_out_def)
  qed
qed

lemma consumed_0: "rb_wf rb \<Longrightarrow> consumed rb 0 = rb"
  by (cases rb) (auto simp: consumed_def rb_wf_def rb_inv_def)

lemma consumed_wf: "rb_wf rb \<Longrightarrow> n \<le> used rb \<Longrightarrow> rb_wf (consumed rb n)"
  by (auto simp: consumed_def rb_wf_def rb_inv_def)

lemma consumed_consumed:
  assumes nm: "n \<le> m"
  shows "consumed (consumed rb n) (m - n) = consumed rb m"
proof -
  have "((tail rb + n) mod size_rb rb + (m - n)) mod size_rb rb
          = (tail rb + n + (m - n)) mod size_rb rb"
    by (rule mod_add_left_eq)
  with nm show ?thesis by (simp add: consumed_def)
qed

lemma consumed_contents:
  assumes wf: "rb_wf rb" and n: "n \<le> used rb" "n \<le> size_rb rb - tail rb"
  shows "ring_contents (consumed rb n) = drop n (ring_contents rb)"
proof -
  have l: "drop n (ring_contents rb) =
      take (used rb - n) (drop (n + tail rb) (data rb @ data rb))"
    by (simp only: ring_contents_def drop_take drop_drop)
  have r: "ring_contents (consumed rb n) =
      take (used rb - n) (drop ((tail rb + n) mod size_rb rb) (data rb @ data rb))"
    by (simp add: ring_contents_def consumed_def del: drop_append)
  show ?thesis
  proof (cases "tail rb + n < size_rb rb")
    case True
    then have "(tail rb + n) mod size_rb rb = n + tail rb" by simp
    with l r show ?thesis by (simp only:)
  next
    case False
    with n wf have e: "tail rb + n = size_rb rb" and u: "used rb \<le> size_rb rb"
      and len: "length (data rb) = size_rb rb"
      by (auto simp: rb_wf_def rb_inv_def)
    note l
    also have "n + tail rb = length (data rb)" using e len by simp
    also have "drop (length (data rb)) (data rb @ data rb) = data rb" by simp
    finally have "drop n (ring_contents rb) = take (used rb - n) (data rb)" .
    moreover from e have "(tail rb + n) mod size_rb rb = 0" by simp
    with r u len have "ring_contents (consumed rb n) = take (used rb - n) (data rb)" by simp
    ultimately show ?thesis by simp
  qed
qed

lemma to_int_small: "n < 2 ^ 31 \<Longrightarrow> to_int n = Inr (int n)"
  by (simp add: to_int_def)

lemma read_nonblock_loop_result:
  "rb_wf rb \<Longrightarrow> co \<le> used rb \<Longrightarrow> got + co < 2 ^ 64 \<Longrightarrow>
     read_nonblock_loop rb co out got =
       Inr (consumed rb co, out @ take co (ring_contents rb), got + co)"
proof (induction rb co out got rule: read_nonblock_loop.induct)
  case (1 rb co out got)
  show ?case
  proof (cases "co = 0")
    case True
    with "1.prems" show ?thesis by (simp add: read_nonblock_loop.simps consumed_0)
  next
    case False
    define n where "n = min (min co (used rb)) (size_rb rb - tail rb)"
    from False "1.prems" have pos: "0 < co" "0 < used rb" by simp_all
    note st = ring_get_step [OF "1.prems"(1) pos, folded n_def consumed_def]
    from "1.prems"(1) st(4) have "n < 2 ^ 31" by (auto simp: rb_wf_def rb_inv_def)
    then have ti: "to_int n = Inr (int n)" by (rule to_int_small)
    have nz: "int n \<noteq> 0" using st(2) by simp
    have sa: "size_add got (nat (int n)) = got + n"
      using "1.prems"(3) st(3) by (simp add: size_add_def)
    have nle: "n \<le> size_rb rb - tail rb" by (simp add: n_def)
    have wf1: "rb_wf (consumed rb n)" using "1.prems"(1) st(4) by (rule consumed_wf)
    have le1: "co - nat (int n) \<le> used (consumed rb n)"
      using "1.prems"(2) by (simp add: consumed_def)
    have lt1: "size_add got (nat (int n)) + (co - nat (int n)) < 2 ^ 64"
      using "1.prems"(3) st(3) sa by simp
    have "read_nonblock_loop rb co out got =
            read_nonblock_loop (consumed rb n) (co - nat (int n))
              (out @ take n (ring_contents rb)) (size_add got (nat (int n)))"
      using False nz by (subst read_nonblock_loop.simps) (simp add: st(1) ti)
    also have "\<dots> = Inr (consumed (consumed rb n) (co - nat (int n)),
        (out @ take n (ring_contents rb)) @
          take (co - nat (int n)) (ring_contents (consumed rb n)),
        size_add got (nat (int n)) + (co - nat (int n)))"
      by (rule "1.IH" [OF False st(1) refl refl ti nz wf1 le1 lt1])
    also have "consumed (consumed rb n) (co - nat (int n)) = consumed rb co"
      using st(3) by (simp add: consumed_consumed)
    also have "(out @ take n (ring_contents rb)) @
          take (co - nat (int n)) (ring_contents (consumed rb n))
        = out @ take co (ring_contents rb)"
      using st(3) consumed_contents [OF "1.prems"(1) st(4) nle]
        take_add [of n "co - n" "ring_contents rb"] by simp
    also have "size_add got (nat (int n)) + (co - nat (int n)) = got + co"
      using sa st(3) by simp
    finally show ?thesis .
  qed
qed

lemma read_block_loop_result:
  "rb_wf rb \<Longrightarrow> 0 \<le> got \<Longrightarrow> co = 0 \<or> 0 < used rb \<or> 0 < got \<Longrightarrow>
   got + int (used rb) < 2 ^ 31 \<Longrightarrow>
     read_block_loop rb co out got =
       Inr (consumed rb (min co (used rb)), out @ take (min co (used rb)) (ring_contents rb),
            got + int (min co (used rb)))"
proof (induction rb co out got rule: read_block_loop.induct)
  case (1 rb co out got)
  show ?case
  proof (cases "co = 0")
    case True
    with "1.prems" show ?thesis by (simp add: read_block_loop.simps consumed_0)
  next
    case False
    show ?thesis
    proof (cases "used rb = 0")
      case True
      with False "1.prems"(3) have g: "got \<noteq> 0" by auto
      have "ring_get rb co = Inr (rb, [], 0)"
        using True by (simp add: ring_get_def)
      with False g True "1.prems"(1) show ?thesis
        by (subst read_block_loop.simps) (simp add: to_int_def consumed_0)
    next
      case upos: False
      define n where "n = min (min co (used rb)) (size_rb rb - tail rb)"
      from False upos have pos: "0 < co" "0 < used rb" by simp_all
      note st = ring_get_step [OF "1.prems"(1) pos, folded n_def consumed_def]
      from "1.prems"(1) st(4) have "n < 2 ^ 31" by (auto simp: rb_wf_def rb_inv_def)
      then have ti: "to_int n = Inr (int n)" by (rule to_int_small)
      have nz: "int n \<noteq> 0" using st(2) by simp
      have ia: "int_add got (int n) = Inr (got + int n)"
        using "1.prems"(2,4) st(4) by (simp add: int_add_def)
      have nle: "n \<le> size_rb rb - tail rb" by (simp add: n_def)
      have wf1: "rb_wf (consumed rb n)" using "1.prems"(1) st(4) by (rule consumed_wf)
      have g1: "0 \<le> got + int n" using "1.prems"(2) by simp
      have d1: "co - nat (int n) = 0 \<or> 0 < used (consumed rb n) \<or> 0 < got + int n"
        using "1.prems"(2) st(2) by simp
      have b1: "got + int n + int (used (consumed rb n)) < 2 ^ 31"
        using "1.prems"(4) st(4) by (simp add: consumed_def)
      have m1: "min (co - nat (int n)) (used (consumed rb n)) = min co (used rb) - n"
        by (simp add: consumed_def min_def)
      have mn: "n \<le> min co (used rb)" using st(3,4) by simp
      have "read_block_loop rb co out got =
              read_block_loop (consumed rb n) (co - nat (int n))
                (out @ take n (ring_contents rb)) (got + int n)"
        using False nz by (subst read_block_loop.simps) (simp add: st(1) ti ia)
      also have "\<dots> = Inr (consumed (consumed rb n) (min co (used rb) - n),
          (out @ take n (ring_contents rb)) @
            take (min co (used rb) - n) (ring_contents (consumed rb n)),
          got + int n + int (min co (used rb) - n))"
        using "1.IH" [OF False st(1) refl refl ti nz ia wf1 g1 d1 b1] unfolding m1 .
      also have "consumed (consumed rb n) (min co (used rb) - n)
          = consumed rb (min co (used rb))"
        using mn by (simp add: consumed_consumed)
      also have "(out @ take n (ring_contents rb)) @
            take (min co (used rb) - n) (ring_contents (consumed rb n))
          = out @ take (min co (used rb)) (ring_contents rb)"
        using mn consumed_contents [OF "1.prems"(1) st(4) nle]
          take_add [of n "min co (used rb) - n" "ring_contents rb"] by simp
      also have "got + int n + int (min co (used rb) - n) = got + int (min co (used rb))"
        using mn by simp
      finally show ?thesis .
    qed
  qed
qed

text \<open>
  Claim C6. A blocking read on a well-formed buffer that holds at least one byte
  returns without waiting: it delivers the oldest \<open>min co used\<close> bytes in order, so
  all \<open>used\<close> bytes and no more when the request is larger, and returns their count.
\<close>

theorem read_block_short_read:
  assumes "rb_wf rb" and "0 < used rb" and "0 < co"
  shows "rb_read_block (Some rb) co =
           Inr (Some (consumed rb (min co (used rb))),
                take (min co (used rb)) (ring_contents rb),
                int (min co (used rb)))"
proof -
  have "int (used rb) < 2 ^ 31" using assms(1) by (auto simp: rb_wf_def rb_inv_def)
  then have "read_block_loop rb co [] 0 =
       Inr (consumed rb (min co (used rb)), [] @ take (min co (used rb)) (ring_contents rb),
            0 + int (min co (used rb)))"
    using assms by (intro read_block_loop_result) simp_all
  then show ?thesis by (simp add: rb_read_block_def)
qed

text \<open>
  The witness for C6 is the scenario of the claim: a buffer of capacity 10 is created,
  4 bytes are written, and a blocking read of up to 10 bytes returns exactly these 4.
\<close>

theorem read_block_short_read_witness:
  "rb_init (Some \<lparr>size_rb = 7, used = 7, tail = 7, lost = 7,
                  data = [0, 0, 0, 0, 0, 0, 0, 0, 0, 0]\<rparr>) [] None 10
     = (Some \<lparr>size_rb = 10, used = 0, tail = 0, lost = 0,
               data = [0, 0, 0, 0, 0, 0, 0, 0, 0, 0]\<rparr>, 0, []) \<and>
   rb_write_block (Some \<lparr>size_rb = 10, used = 0, tail = 0, lost = 0,
                           data = [0, 0, 0, 0, 0, 0, 0, 0, 0, 0]\<rparr>) [11, 12, 13, 14]
     = Inr (Some \<lparr>size_rb = 10, used = 4, tail = 0, lost = 0,
                   data = [11, 12, 13, 14, 0, 0, 0, 0, 0, 0]\<rparr>, 4) \<and>
   rb_wf \<lparr>size_rb = 10, used = 4, tail = 0, lost = 0,
          data = [11, 12, 13, 14, 0, 0, 0, 0, 0, 0]\<rparr> \<and>
   rb_read_block (Some \<lparr>size_rb = 10, used = 4, tail = 0, lost = 0,
                          data = [11, 12, 13, 14, 0, 0, 0, 0, 0, 0]\<rparr>) 10
     = Inr (Some \<lparr>size_rb = 10, used = 0, tail = 4, lost = 0,
                   data = [11, 12, 13, 14, 0, 0, 0, 0, 0, 0]\<rparr>, [11, 12, 13, 14], 4)"
proof -
  have wf: "rb_wf \<lparr>size_rb = 10, used = 4, tail = 0, lost = 0,
          data = [11, 12, 13, 14, 0, 0, 0, 0, 0, 0]\<rparr>"
    by (simp add: rb_wf_def rb_inv_def)
  have "rb_read_block (Some \<lparr>size_rb = 10, used = 4, tail = 0, lost = 0,
                          data = [11, 12, 13, 14, 0, 0, 0, 0, 0, 0]\<rparr>) 10
     = Inr (Some \<lparr>size_rb = 10, used = 0, tail = 4, lost = 0,
                   data = [11, 12, 13, 14, 0, 0, 0, 0, 0, 0]\<rparr>, [11, 12, 13, 14], 4)"
    using read_block_short_read [OF wf, of 10] by (simp add: consumed_def ring_contents_def)
  moreover have "rb_init (Some \<lparr>size_rb = 7, used = 7, tail = 7, lost = 7,
                  data = [0, 0, 0, 0, 0, 0, 0, 0, 0, 0]\<rparr>) [] None 10
     = (Some \<lparr>size_rb = 10, used = 0, tail = 0, lost = 0,
               data = [0, 0, 0, 0, 0, 0, 0, 0, 0, 0]\<rparr>, 0, [])"
    by (simp add: run_defs)
  moreover have "rb_write_block (Some \<lparr>size_rb = 10, used = 0, tail = 0, lost = 0,
                           data = [0, 0, 0, 0, 0, 0, 0, 0, 0, 0]\<rparr>) [11, 12, 13, 14]
     = Inr (Some \<lparr>size_rb = 10, used = 4, tail = 0, lost = 0,
                   data = [11, 12, 13, 14, 0, 0, 0, 0, 0, 0]\<rparr>, 4)"
    by (simp add: run_defs)
  ultimately show ?thesis using wf by simp
qed

text \<open>
  Claim C3, as amended, for \<^verbatim>\<open>rb_read_nonblock\<close> on a well-formed buffer. A
  request above the capacity returns \<^verbatim>\<open>-E2BIG\<close>; a request within the capacity
  and above the occupancy returns \<^verbatim>\<open>-EAGAIN\<close>; both leave the state as it
  was and deliver nothing. Any other request delivers exactly the \<open>co\<close> oldest bytes,
  takes \<open>co\<close> off \<open>used\<close>, moves \<open>tail\<close> on by \<open>co\<close> modulo the capacity and
  returns \<open>co\<close>.
\<close>

theorem read_nonblock_all_or_nothing:
  assumes "rb_wf rb"
  shows "(size_rb rb < co \<longrightarrow> rb_read_nonblock (Some rb) co = Inr (Some rb, [], - E2BIG)) \<and>
         (co \<le> size_rb rb \<and> used rb < co \<longrightarrow>
            rb_read_nonblock (Some rb) co = Inr (Some rb, [], - EAGAIN)) \<and>
         (co \<le> used rb \<longrightarrow>
            rb_read_nonblock (Some rb) co =
              Inr (Some (consumed rb co), take co (ring_contents rb), int co))"
proof (intro conjI impI)
  assume "size_rb rb < co"
  then show "rb_read_nonblock (Some rb) co = Inr (Some rb, [], - E2BIG)"
    by (simp add: rb_read_nonblock_def)
next
  assume "co \<le> size_rb rb \<and> used rb < co"
  then show "rb_read_nonblock (Some rb) co = Inr (Some rb, [], - EAGAIN)"
    by (simp add: rb_read_nonblock_def ring_used_def)
next
  assume le: "co \<le> used rb"
  from assms have b: "used rb \<le> size_rb rb" "size_rb rb < 2 ^ 31"
    by (auto simp: rb_wf_def rb_inv_def)
  have "co < (2 ^ 31 :: nat)" using le b by linarith
  also have "(2 ^ 31 :: nat) < 2 ^ 64" by simp
  finally have "0 + co < (2 ^ 64 :: nat)" by simp
  from read_nonblock_loop_result [OF assms le this, of "[]"]
  have "read_nonblock_loop rb co [] 0 = Inr (consumed rb co, take co (ring_contents rb), co)"
    by simp
  moreover have "to_int co = Inr (int co)" using le b by (simp add: to_int_def)
  ultimately show "rb_read_nonblock (Some rb) co =
      Inr (Some (consumed rb co), take co (ring_contents rb), int co)"
    using le b by (simp add: rb_read_nonblock_def ring_used_def)
qed

text \<open>
  A witness for C3, one request for each of the three cases, on a buffer of capacity 4
  that holds the bytes 5, 6, 7 from index 2 on, around the end of the arena.
\<close>

theorem read_nonblock_all_or_nothing_witness:
  "rb_wf \<lparr>size_rb = 4, used = 3, tail = 2, lost = 0, data = [7, 8, 5, 6]\<rparr> \<and>
   rb_read_nonblock (Some \<lparr>size_rb = 4, used = 3, tail = 2, lost = 0, data = [7, 8, 5, 6]\<rparr>) 5
     = Inr (Some \<lparr>size_rb = 4, used = 3, tail = 2, lost = 0, data = [7, 8, 5, 6]\<rparr>, [], - E2BIG) \<and>
   rb_read_nonblock (Some \<lparr>size_rb = 4, used = 3, tail = 2, lost = 0, data = [7, 8, 5, 6]\<rparr>) 4
     = Inr (Some \<lparr>size_rb = 4, used = 3, tail = 2, lost = 0, data = [7, 8, 5, 6]\<rparr>, [], - EAGAIN) \<and>
   rb_read_nonblock (Some \<lparr>size_rb = 4, used = 3, tail = 2, lost = 0, data = [7, 8, 5, 6]\<rparr>) 3
     = Inr (Some \<lparr>size_rb = 4, used = 0, tail = 1, lost = 0, data = [7, 8, 5, 6]\<rparr>, [5, 6, 7], 3)"
proof -
  have wf: "rb_wf \<lparr>size_rb = 4, used = 3, tail = 2, lost = 0, data = [7, 8, 5, 6]\<rparr>"
    by (simp add: rb_wf_def rb_inv_def)
  from read_nonblock_all_or_nothing [OF wf, of 5] read_nonblock_all_or_nothing [OF wf, of 4]
    read_nonblock_all_or_nothing [OF wf, of 3] wf
  show ?thesis by (simp add: consumed_def ring_contents_def)
qed

text \<open>
  \<^verbatim>\<open>rb_read_asy\<close> of \<^verbatim>\<open>ringbuffer.c\<close> never reports an error on a
  live handle: whenever it returns it has delivered the request cut down to the stored
  bytes, and its result is the number of bytes that were stored.
\<close>

lemma memcpy_out_length: "memcpy_out d off n room = Inr bs \<Longrightarrow> length bs = n"
  by (auto simp: memcpy_out_def split: if_splits)

lemma get_ht_length: "get_ht rb co = Inr (rb', bs, cr) \<Longrightarrow> length bs = cr"
  by (auto simp: get_ht_def Let_def split: if_splits sum.splits dest: memcpy_out_length)

lemma read_loop_ht_length:
  "read_loop_ht rb co out = Inr (rb', out') \<Longrightarrow> length out' = length out + co"
proof (induction rb co out rule: read_loop_ht.induct)
  case (1 rb co out)
  show ?case
  proof (cases "co = 0")
    case True
    with "1.prems" show ?thesis by (simp add: read_loop_ht.simps)
  next
    case False
    with "1.prems" obtain rb1 bs cr where
      g: "get_ht rb co = Inr (rb1, bs, cr)" and nz: "cr \<noteq> 0" and
      rec: "read_loop_ht rb1 (co - cr) (out @ bs) = Inr (rb', out')"
      by (subst (asm) read_loop_ht.simps) (auto split: sum.splits if_splits)
    have "cr \<le> co" using g
      by (auto simp: get_ht_def Let_def memcpy_out_def split: if_splits sum.splits)
    with "1.IH" [OF False g refl refl nz rec] get_ht_length [OF g] show ?thesis by simp
  qed
qed

lemma rb_read_asy_count:
  "rb_read_asy (Some rb) co = Inr (h', bs, r) \<Longrightarrow>
     length bs = min co (length_ht rb) \<and> r = int (length_ht rb)"
  by (auto simp: rb_read_asy_def rb_read_ht_def Let_def to_int_def
      split: sum.splits if_splits dest!: read_loop_ht_length)

text \<open>
  The counterexample to C3 as stated: \<^verbatim>\<open>rb_read_asy\<close> of
  \<^verbatim>\<open>ringbuffer.c\<close>, asked for 3 bytes of a buffer that holds 2, delivers the 2
  and returns 2; it does not fail and the count is partial.
\<close>

theorem read_asy_partial_count:
  "rb_init_ht (Some \<lparr>size_ht = 4, head_ht = 9, tail_ht = 9, lost_ht = 9, data_ht = [0, 0, 0, 0]\<rparr>)
       [] None 4
     = (Some \<lparr>size_ht = 4, head_ht = 0, tail_ht = 0, lost_ht = 0, data_ht = [0, 0, 0, 0]\<rparr>, 0, []) \<and>
   rb_write_asy (Some \<lparr>size_ht = 4, head_ht = 0, tail_ht = 0, lost_ht = 0, data_ht = [0, 0, 0, 0]\<rparr>)
       [5, 6]
     = Inr (Some \<lparr>size_ht = 4, head_ht = 2, tail_ht = 0, lost_ht = 0, data_ht = [5, 6, 0, 0]\<rparr>, 2) \<and>
   length_ht \<lparr>size_ht = 4, head_ht = 2, tail_ht = 0, lost_ht = 0, data_ht = [5, 6, 0, 0]\<rparr> = 2 \<and>
   rb_read_asy (Some \<lparr>size_ht = 4, head_ht = 2, tail_ht = 0, lost_ht = 0, data_ht = [5, 6, 0, 0]\<rparr>) 3
     = Inr (Some \<lparr>size_ht = 4, head_ht = 2, tail_ht = 2, lost_ht = 0, data_ht = [5, 6, 0, 0]\<rparr>,
            [5, 6], 2) \<and>
   (2 :: int) \<noteq> - EAGAIN"
  by (simp add: run_defs_ht)

section \<open>Writing\<close>

lemma stored_Nil: "stored rb [] = rb"
  by (simp add: stored_def)

lemma stored_wf:
  "rb_wf rb \<Longrightarrow> length po \<le> size_rb rb - used rb \<Longrightarrow>
   write_pos rb + length po \<le> size_rb rb \<Longrightarrow> rb_wf (stored rb po)"
  by (auto simp: stored_def rb_wf_def rb_inv_def)

text \<open>
  One call of \<^verbatim>\<open>_put\<close> whose bytes fit into the free space and end at or before
  the last byte of the arena.
\<close>

lemma ring_put_fits:
  assumes wf: "rb_wf rb" and po: "po \<noteq> []" "length po \<le> size_rb rb - used rb"
    and fit: "write_pos rb + length po \<le> size_rb rb"
  shows "ring_put rb po (length po) = Inr (stored rb po, length po)"
proof -
  from wf po have s: "0 < size_rb rb" "used rb \<le> size_rb rb" "tail rb < size_rb rb"
    "length (data rb) = size_rb rb" "size_rb rb < 2 ^ 31"
    by (auto simp: rb_wf_def rb_inv_def)
  have "tail rb + used rb < 2 ^ 31 + (2 ^ 31 :: nat)" using s by linarith
  also have "\<dots> < (2 ^ 64 :: nat)" by simp
  finally have h: "size_add (tail rb) (used rb) mod size_rb rb = write_pos rb"
    by (simp add: size_add_def write_pos_def)
  have "write_pos rb + length po < 2 ^ 31" using fit s by linarith
  also have "(2 ^ 31 :: nat) < 2 ^ 64" by simp
  finally have nh: "size_add (write_pos rb) (length po) mod size_rb rb \<le> size_rb rb"
    using s by (simp add: size_add_def)
  have "used rb + length po < 2 ^ 31" using po s by linarith
  also have "(2 ^ 31 :: nat) < 2 ^ 64" by simp
  finally have u: "size_add (used rb) (length po) = used rb + length po"
    by (simp add: size_add_def)
  from s po fit show ?thesis
    by (simp add: ring_put_def Let_def h nh u size_sub_def memcpy_in_def stored_def)
qed

lemma write_nonblock_loop_fits:
  assumes wf: "rb_wf rb" and po: "length po \<le> size_rb rb - used rb"
    and fit: "write_pos rb + length po \<le> size_rb rb"
  shows "write_nonblock_loop rb po 0 = Inr (stored rb po, length po)"
proof (cases "po = []")
  case True
  then show ?thesis by (simp add: write_nonblock_loop.simps stored_Nil)
next
  case False
  from wf po have "length po < 2 ^ 31" by (auto simp: rb_wf_def rb_inv_def)
  then have ti: "to_int (length po) = Inr (int (length po))"
    and sa: "size_add 0 (length po) = length po"
    by (simp_all add: to_int_def size_add_def)
  have "write_nonblock_loop rb po 0 = write_nonblock_loop (stored rb po) [] (length po)"
    using False by (subst write_nonblock_loop.simps)
      (simp add: ring_put_fits [OF wf False po fit] ti sa)
  then show ?thesis by (simp add: write_nonblock_loop.simps)
qed

lemma write_block_loop_fits:
  assumes wf: "rb_wf rb" and po: "po \<noteq> []" "length po \<le> size_rb rb - used rb"
    and fit: "write_pos rb + length po \<le> size_rb rb"
  shows "write_block_loop rb po 0 = Inr (stored rb po, int (length po))"
proof -
  from wf po have "length po < 2 ^ 31" by (auto simp: rb_wf_def rb_inv_def)
  then have ti: "to_int (length po) = Inr (int (length po))"
    and ia: "int_add 0 (int (length po)) = Inr (int (length po))"
    by (simp_all add: to_int_def int_add_def)
  have "write_block_loop rb po 0 = write_block_loop (stored rb po) [] (int (length po))"
    using po(1) by (subst write_block_loop.simps)
      (simp add: ring_put_fits [OF wf po fit] ti ia)
  then show ?thesis by (simp add: write_block_loop.simps)
qed

text \<open>
  Claim C2, as amended, for \<^verbatim>\<open>rb_write_nonblock\<close> on a well-formed buffer. A
  request longer than the capacity returns \<^verbatim>\<open>-E2BIG\<close>; a request within the
  capacity and longer than the free space returns \<^verbatim>\<open>-ENOMEM\<close>; both leave
  the whole state, so \<open>used\<close>, \<open>tail\<close> and the arena, as it was. A request that
  fits the free space and ends at or before the last byte of the arena is stored whole
  at the write position, \<open>used\<close> grows by its length, and its length is returned.
\<close>

theorem write_nonblock_all_or_nothing:
  assumes "rb_wf rb"
  shows "(size_rb rb < length po \<longrightarrow>
            rb_write_nonblock (Some rb) po = Inr (Some rb, - E2BIG)) \<and>
         (length po \<le> size_rb rb \<and> size_rb rb - used rb < length po \<longrightarrow>
            rb_write_nonblock (Some rb) po = Inr (Some rb, - ENOMEM)) \<and>
         (length po \<le> size_rb rb - used rb \<and> write_pos rb + length po \<le> size_rb rb \<longrightarrow>
            rb_write_nonblock (Some rb) po = Inr (Some (stored rb po), int (length po)))"
proof (intro conjI impI)
  assume "size_rb rb < length po"
  then show "rb_write_nonblock (Some rb) po = Inr (Some rb, - E2BIG)"
    by (simp add: rb_write_nonblock_def)
next
  from assms have u: "used rb \<le> size_rb rb" by (simp add: rb_wf_def rb_inv_def)
  assume "length po \<le> size_rb rb \<and> size_rb rb - used rb < length po"
  with u show "rb_write_nonblock (Some rb) po = Inr (Some rb, - ENOMEM)"
    by (simp add: rb_write_nonblock_def ring_free_def size_sub_def)
next
  from assms have u: "used rb \<le> size_rb rb" "size_rb rb < 2 ^ 31"
    by (simp_all add: rb_wf_def rb_inv_def)
  assume a: "length po \<le> size_rb rb - used rb \<and> write_pos rb + length po \<le> size_rb rb"
  then have "write_nonblock_loop rb po 0 = Inr (stored rb po, length po)"
    using assms by (intro write_nonblock_loop_fits) simp_all
  moreover have "to_int (length po) = Inr (int (length po))"
    using a u by (simp add: to_int_def)
  ultimately show "rb_write_nonblock (Some rb) po = Inr (Some (stored rb po), int (length po))"
    using a u by (simp add: rb_write_nonblock_def ring_free_def size_sub_def)
qed

text \<open>
  A witness for C2, one request for each of the three cases, on a buffer of capacity 4
  that holds one byte.
\<close>

theorem write_nonblock_all_or_nothing_witness:
  "rb_wf \<lparr>size_rb = 4, used = 1, tail = 0, lost = 0, data = [9, 0, 0, 0]\<rparr> \<and>
   rb_write_nonblock (Some \<lparr>size_rb = 4, used = 1, tail = 0, lost = 0, data = [9, 0, 0, 0]\<rparr>)
       [1, 2, 3, 4, 5]
     = Inr (Some \<lparr>size_rb = 4, used = 1, tail = 0, lost = 0, data = [9, 0, 0, 0]\<rparr>, - E2BIG) \<and>
   rb_write_nonblock (Some \<lparr>size_rb = 4, used = 1, tail = 0, lost = 0, data = [9, 0, 0, 0]\<rparr>)
       [1, 2, 3, 4]
     = Inr (Some \<lparr>size_rb = 4, used = 1, tail = 0, lost = 0, data = [9, 0, 0, 0]\<rparr>, - ENOMEM) \<and>
   rb_write_nonblock (Some \<lparr>size_rb = 4, used = 1, tail = 0, lost = 0, data = [9, 0, 0, 0]\<rparr>)
       [1, 2]
     = Inr (Some \<lparr>size_rb = 4, used = 3, tail = 0, lost = 0, data = [9, 1, 2, 0]\<rparr>, 2)"
proof -
  have wf: "rb_wf \<lparr>size_rb = 4, used = 1, tail = 0, lost = 0, data = [9, 0, 0, 0]\<rparr>"
    by (simp add: rb_wf_def rb_inv_def)
  from write_nonblock_all_or_nothing [OF wf, of "[1, 2, 3, 4, 5]"]
    write_nonblock_all_or_nothing [OF wf, of "[1, 2, 3, 4]"]
    write_nonblock_all_or_nothing [OF wf, of "[1, 2]"] wf
  show ?thesis by (simp add: stored_def write_pos_def)
qed

text \<open>
  \<^verbatim>\<open>rb_write_asy\<close> of \<^verbatim>\<open>ringbuffer.c\<close> never reports an error on a
  live handle: whenever it returns, its result is the request cut down to the free
  space.
\<close>

lemma rb_write_asy_count:
  "rb_write_asy (Some rb) po = Inr (h', r) \<Longrightarrow> r = int (min (length po) (avail_ht rb))"
  by (auto simp: rb_write_asy_def rb_write_ht_def Let_def to_int_def
      split: sum.splits if_splits)

text \<open>
  The counterexample to C2 as stated: \<^verbatim>\<open>rb_write_asy\<close> of
  \<^verbatim>\<open>ringbuffer.c\<close>. On a buffer of capacity 4 that already took two bytes, a
  request of three bytes stores two of them and returns 2: a partial count, where the
  claim has no byte written and \<open>InsufficientSpace\<close>.
\<close>

theorem write_asy_partial_count:
  "rb_init_ht (Some \<lparr>size_ht = 4, head_ht = 9, tail_ht = 9, lost_ht = 9, data_ht = [0, 0, 0, 0]\<rparr>)
       [] None 4
     = (Some \<lparr>size_ht = 4, head_ht = 0, tail_ht = 0, lost_ht = 0, data_ht = [0, 0, 0, 0]\<rparr>, 0, []) \<and>
   rb_write_asy (Some \<lparr>size_ht = 4, head_ht = 0, tail_ht = 0, lost_ht = 0, data_ht = [0, 0, 0, 0]\<rparr>)
       [5, 6]
     = Inr (Some \<lparr>size_ht = 4, head_ht = 2, tail_ht = 0, lost_ht = 0, data_ht = [5, 6, 0, 0]\<rparr>, 2) \<and>
   avail_ht \<lparr>size_ht = 4, head_ht = 2, tail_ht = 0, lost_ht = 0, data_ht = [5, 6, 0, 0]\<rparr> = 2 \<and>
   rb_write_asy (Some \<lparr>size_ht = 4, head_ht = 2, tail_ht = 0, lost_ht = 0, data_ht = [5, 6, 0, 0]\<rparr>)
       [1, 2, 3]
     = Inr (Some \<lparr>size_ht = 4, head_ht = 0, tail_ht = 0, lost_ht = 0, data_ht = [5, 6, 1, 2]\<rparr>, 2) \<and>
   (2 :: int) \<noteq> - ENOMEM"
  by (simp add: run_defs_ht)

section \<open>Writing and reading back\<close>

lemma take_drop_stored_low:
  fixes d :: "'a list"
  assumes "t + u < length d" "length po \<le> length d - u" "t + u + length po \<le> length d"
  shows "take (u + length po)
           (drop t ((take (t + u) d @ po @ drop (t + u + length po) d) @ X))
         = take u (drop t d) @ po"
proof -
  have dt: "drop t (take (t + u) d) = take u (drop t d)"
    by (simp only: drop_take add_diff_cancel_left')
  have l: "length (take u (drop t d)) = u" using assms by simp
  have "drop t ((take (t + u) d @ po @ drop (t + u + length po) d) @ X)
        = drop t (take (t + u) d) @ po @ drop (t + u + length po) d @ X"
    using assms by simp
  also have "\<dots> = take u (drop t d) @ po @ drop (t + u + length po) d @ X"
    by (simp only: dt)
  finally show ?thesis using l by simp
qed

lemma take_drop_stored_high:
  fixes d :: "'a list"
  assumes "t < length d" "length d \<le> t + u" "u \<le> length d" "wp = t + u - length d"
    "wp + length po \<le> t"
  shows "take (u + length po)
           (drop t ((take wp d @ po @ drop (wp + length po) d) @
                    (take wp d @ po @ drop (wp + length po) d)))
         = drop t d @ take wp d @ po"
proof -
  have e1: "drop t (take wp d @ po @ drop (wp + length po) d) = drop t d"
    using assms by simp
  have l1: "length (take wp d @ po @ drop (wp + length po) d) = length d"
    using assms by simp
  have "drop t ((take wp d @ po @ drop (wp + length po) d) @
                (take wp d @ po @ drop (wp + length po) d))
      = drop t (take wp d @ po @ drop (wp + length po) d) @
          (take wp d @ po @ drop (wp + length po) d)"
    using assms(1) l1 by (simp del: append_assoc)
  also have "\<dots> = drop t d @ take wp d @ po @ drop (wp + length po) d"
    by (simp only: e1 append_assoc)
  finally have "take (u + length po)
       (drop t ((take wp d @ po @ drop (wp + length po) d) @
                (take wp d @ po @ drop (wp + length po) d)))
     = take (u + length po) (drop t d @ take wp d @ po @ drop (wp + length po) d)"
    by (simp only:)
  also have "\<dots> = drop t d @ take (wp + length po) (take wp d @ po @ drop (wp + length po) d)"
    using assms by simp
  also have "take (wp + length po) (take wp d @ po @ drop (wp + length po) d) = take wp d @ po"
    using assms by simp
  finally show ?thesis .
qed

text \<open>
  A request that is stored without passing the end of the arena is appended to the
  contents of the buffer.
\<close>

lemma stored_contents:
  assumes wf: "rb_wf rb" and po: "length po \<le> size_rb rb - used rb"
    and fit: "write_pos rb + length po \<le> size_rb rb"
  shows "ring_contents (stored rb po) = ring_contents rb @ po"
proof -
  from wf have s: "used rb \<le> length (data rb)"
    "tail rb < length (data rb) \<or> length (data rb) = 0 \<and> tail rb = 0"
    and sz: "size_rb rb = length (data rb)"
    by (auto simp: rb_wf_def rb_inv_def)
  have wpd: "write_pos rb = (tail rb + used rb) mod length (data rb)"
    by (simp add: write_pos_def sz)
  have c: "ring_contents (stored rb po) =
      take (used rb + length po) (drop (tail rb)
        ((take (write_pos rb) (data rb) @ po @ drop (write_pos rb + length po) (data rb)) @
         (take (write_pos rb) (data rb) @ po @ drop (write_pos rb + length po) (data rb))))"
  proof -
    have "data (stored rb po) =
        take (write_pos rb) (data rb) @ po @ drop (write_pos rb + length po) (data rb)"
      "used (stored rb po) = used rb + length po" "tail (stored rb po) = tail rb"
      by (simp_all add: stored_def)
    then show ?thesis by (simp only: ring_contents_def)
  qed
  show ?thesis
  proof (cases "tail rb + used rb < length (data rb)")
    case True
    then have wp: "write_pos rb = tail rb + used rb" by (simp add: wpd)
    have "take (used rb) (drop (tail rb) (data rb @ data rb))
            = take (used rb) (drop (tail rb) (data rb))"
      using True by simp
    with take_drop_stored_low [OF True, of po] po fit show ?thesis
      unfolding c unfolding wp by (simp add: sz ring_contents_def)
  next
    case False
    then have ge: "length (data rb) \<le> tail rb + used rb" by simp
    show ?thesis
    proof (cases "length (data rb) = 0")
      case True
      with po sz show ?thesis by (simp add: ring_contents_def stored_def)
    next
      case ne: False
      with s have t: "tail rb < length (data rb)" by auto
      have "(tail rb + used rb) mod length (data rb)
              = (tail rb + used rb - length (data rb)) mod length (data rb)"
        using ge by (rule le_mod_geq)
      also have "\<dots> = tail rb + used rb - length (data rb)"
        using t s(1) by simp
      finally have wp: "write_pos rb = tail rb + used rb - length (data rb)"
        by (simp add: wpd)
      from wp po False sz s(1) have le: "write_pos rb + length po \<le> tail rb" by simp
      have "take (used rb) (drop (tail rb) (data rb @ data rb))
              = drop (tail rb) (data rb) @ take (write_pos rb) (data rb)"
        using t ge s(1) wp by (simp add: add.commute)
      with take_drop_stored_high [OF t ge s(1) wp le] show ?thesis
        unfolding c by (simp add: ring_contents_def)
    qed
  qed
qed

text \<open>
  The round trip of claim C1 where \<^verbatim>\<open>_put\<close> does not reach the end of the arena:
  on an empty well-formed buffer, a blocking write of \<open>B\<close> that ends at or before the
  last byte of the arena returns the length of \<open>B\<close>, and the blocking read of that many
  bytes which follows delivers \<open>B\<close>. A buffer fresh from \<^verbatim>\<open>rb_init\<close> has
  \<open>tail = 0\<close>, so there this holds for every \<open>B\<close> up to the capacity.
\<close>

lemma blocking_roundtrip_without_wrap:
  assumes wf: "rb_wf rb" and empty: "used rb = 0"
    and fit: "tail rb + length B \<le> size_rb rb"
  shows "rb_write_block (Some rb) B = Inr (Some (stored rb B), int (length B)) \<and>
         rb_read_block (Some (stored rb B)) (length B)
           = Inr (Some (consumed (stored rb B) (length B)), B, int (length B))"
proof (cases "B = []")
  case True
  with wf show ?thesis
    by (simp add: rb_write_block_def rb_read_block_def read_block_loop.simps stored_Nil
        consumed_0)
next
  case False
  from wf empty have wp: "write_pos rb = tail rb"
    by (auto simp: write_pos_def rb_wf_def rb_inv_def)
  from fit empty have po: "length B \<le> size_rb rb - used rb" by simp
  from fit wp have fit': "write_pos rb + length B \<le> size_rb rb" by simp
  have w: "rb_write_block (Some rb) B = Inr (Some (stored rb B), int (length B))"
    using False by (simp add: rb_write_block_def write_block_loop_fits [OF wf False po fit'])
  have wf': "rb_wf (stored rb B)" using wf po fit' by (rule stored_wf)
  have u': "used (stored rb B) = length B" using empty by (simp add: stored_def)
  have c': "ring_contents (stored rb B) = B"
    using stored_contents [OF wf po fit'] empty by (simp add: ring_contents_def)
  from wf' u' have "int (used (stored rb B)) < 2 ^ 31" by (auto simp: rb_wf_def rb_inv_def)
  then have "read_block_loop (stored rb B) (length B) [] 0 =
       Inr (consumed (stored rb B) (min (length B) (used (stored rb B))),
            [] @ take (min (length B) (used (stored rb B))) (ring_contents (stored rb B)),
            0 + int (min (length B) (used (stored rb B))))"
    using wf' False u' by (intro read_block_loop_result) simp_all
  then have "rb_read_block (Some (stored rb B)) (length B)
           = Inr (Some (consumed (stored rb B) (length B)), B, int (length B))"
    by (simp add: rb_read_block_def u' c')
  with w show ?thesis by simp
qed

text \<open>
  Every \<^verbatim>\<open>_put\<close> of bytes that fit the free space but would have to continue
  at index 0 leaves the arena, and with it every blocking write of such bytes.
\<close>

lemma ring_put_wrap_overruns:
  assumes wf: "rb_wf rb" and po: "length po \<le> size_rb rb - used rb"
    and wrap: "size_rb rb < write_pos rb + length po"
  shows "ring_put rb po (length po) = Inl OutOfBounds"
proof -
  from wf wrap po have s: "0 < size_rb rb" "used rb \<le> size_rb rb" "tail rb < size_rb rb"
    "length (data rb) = size_rb rb" "size_rb rb < 2 ^ 31"
    by (auto simp: rb_wf_def rb_inv_def write_pos_def)
  have "tail rb + used rb < 2 ^ 31 + (2 ^ 31 :: nat)" using s by linarith
  also have "\<dots> < (2 ^ 64 :: nat)" by simp
  finally have h: "size_add (tail rb) (used rb) mod size_rb rb = write_pos rb"
    by (simp add: size_add_def write_pos_def)
  have nh: "size_add (write_pos rb) (length po) mod size_rb rb \<le> size_rb rb"
    using s by (simp add: less_imp_le)
  from s po wrap show ?thesis
    by (simp add: ring_put_def Let_def h nh size_sub_def memcpy_in_def)
qed

lemma rb_write_block_wrap_overruns:
  assumes wf: "rb_wf rb" and po: "length po \<le> size_rb rb - used rb"
    and wrap: "size_rb rb < write_pos rb + length po"
  shows "rb_write_block (Some rb) po = Inl OutOfBounds"
proof -
  have "po \<noteq> []"
  proof
    assume e: "po = []"
    show False
    proof (cases "size_rb rb = 0")
      case True
      with wf wrap e show False by (auto simp: rb_wf_def rb_inv_def write_pos_def)
    next
      case False
      then have "write_pos rb < size_rb rb" by (simp add: write_pos_def)
      with wrap e show False by simp
    qed
  qed
  then show ?thesis
    by (simp add: rb_write_block_def write_block_loop.simps
        ring_put_wrap_overruns [OF wf po wrap])
qed

text \<open>
  Claim C1 on the code. A buffer of 4 bytes is created, three bytes are written and read
  back, which leaves it empty with \<open>tail = 3\<close>. A blocking write of two bytes then
  has to continue at index 0; \<^verbatim>\<open>_put\<close> copies both bytes to index 3 instead,
  one byte past the end of the arena.
\<close>

theorem blocking_roundtrip_overruns_arena:
  "rb_init (Some \<lparr>size_rb = 9, used = 9, tail = 9, lost = 9, data = [0, 0, 0, 0]\<rparr>) [] None 4
     = (Some \<lparr>size_rb = 4, used = 0, tail = 0, lost = 0, data = [0, 0, 0, 0]\<rparr>, 0, []) \<and>
   rb_write_block (Some \<lparr>size_rb = 4, used = 0, tail = 0, lost = 0, data = [0, 0, 0, 0]\<rparr>)
       [7, 8, 9]
     = Inr (Some \<lparr>size_rb = 4, used = 3, tail = 0, lost = 0, data = [7, 8, 9, 0]\<rparr>, 3) \<and>
   rb_read_block (Some \<lparr>size_rb = 4, used = 3, tail = 0, lost = 0, data = [7, 8, 9, 0]\<rparr>) 3
     = Inr (Some \<lparr>size_rb = 4, used = 0, tail = 3, lost = 0, data = [7, 8, 9, 0]\<rparr>,
            [7, 8, 9], 3) \<and>
   ring_put \<lparr>size_rb = 4, used = 0, tail = 3, lost = 0, data = [7, 8, 9, 0]\<rparr> [1, 2] 2
     = Inl OutOfBounds \<and>
   rb_write_block (Some \<lparr>size_rb = 4, used = 0, tail = 3, lost = 0, data = [7, 8, 9, 0]\<rparr>)
       [1, 2]
     = Inl OutOfBounds"
  by (simp add: run_defs)

section \<open>Capacity 0\<close>

text \<open>
  On a buffer of capacity 0 every \<^verbatim>\<open>_put\<close> takes a modulus by zero, and so
  does every blocking write of at least one byte.
\<close>

lemma ring_put_zero_capacity: "size_rb rb = 0 \<Longrightarrow> ring_put rb po co = Inl DivByZero"
  by (simp add: ring_put_def)

lemma rb_write_block_zero_capacity:
  "size_rb rb = 0 \<Longrightarrow> po \<noteq> [] \<Longrightarrow> rb_write_block (Some rb) po = Inl DivByZero"
  by (simp add: rb_write_block_def write_block_loop.simps ring_put_zero_capacity)

text \<open>
  Claim C9 on the code. \<^verbatim>\<open>rb_init\<close> accepts the capacity 0. On the buffer it
  makes, the two non-blocking transfers of one byte report \<^verbatim>\<open>-E2BIG\<close>, but
  the blocking write of one byte reaches \<^verbatim>\<open>_put\<close>, whose first modulus is by
  the size 0, and the blocking read of one byte waits for data that cannot arrive.
\<close>

theorem zero_capacity_write_block_modulus_by_zero:
  "rb_init (Some \<lparr>size_rb = 9, used = 9, tail = 9, lost = 9, data = []\<rparr>) [] None 0
     = (Some \<lparr>size_rb = 0, used = 0, tail = 0, lost = 0, data = []\<rparr>, 0, []) \<and>
   rb_write_block (Some \<lparr>size_rb = 0, used = 0, tail = 0, lost = 0, data = []\<rparr>) [1]
     = Inl DivByZero \<and>
   rb_read_block (Some \<lparr>size_rb = 0, used = 0, tail = 0, lost = 0, data = []\<rparr>) 1
     = Inl WaitsForever \<and>
   rb_write_nonblock (Some \<lparr>size_rb = 0, used = 0, tail = 0, lost = 0, data = []\<rparr>) [1]
     = Inr (Some \<lparr>size_rb = 0, used = 0, tail = 0, lost = 0, data = []\<rparr>, - E2BIG) \<and>
   rb_read_nonblock (Some \<lparr>size_rb = 0, used = 0, tail = 0, lost = 0, data = []\<rparr>) 1
     = Inr (Some \<lparr>size_rb = 0, used = 0, tail = 0, lost = 0, data = []\<rparr>, [], - E2BIG)"
  by (simp add: run_defs)

section \<open>Creation and teardown\<close>

text \<open>
  \<^verbatim>\<open>rb_destroy\<close> of the file with \<open>used\<close> and \<open>tail\<close>: on a live handle it
  releases the seven synchronisation objects and the block, once each, and resets the
  pointer; on a handle whose pointer is null, so also when called a second time, it
  returns \<^verbatim>\<open>EFAULT\<close> and releases nothing.
\<close>

lemma rb_destroy_twice:
  "rb_destroy (Some rb)
     = (None, 0, [WrCond, WrCondLock, WrMutex, RdCond, RdCondLock, RdMutex, Spinlock, Block]) \<and>
   rb_destroy (fst (rb_destroy (Some rb))) = (None, EFAULT, []) \<and>
   rb_destroy None = (None, EFAULT, [])"
  by (simp add: rb_destroy_def)

text \<open>
  Claim C7 on the code of \<^verbatim>\<open>ringbuffer.c\<close>. Its \<^verbatim>\<open>rb_destroy\<close> tests
  the pointer the wrong way round: on the live handle that \<^verbatim>\<open>rb_init\<close> made
  it returns \<^verbatim>\<open>EFAULT\<close>, releases nothing and leaves the handle live; on a
  handle whose pointer is null it does not return \<^verbatim>\<open>EFAULT\<close> but goes on to
  destroy objects through the null pointer.
\<close>

theorem destroy_ht_refuses_live_handle:
  "rb_init_ht (Some \<lparr>size_ht = 4, head_ht = 9, tail_ht = 9, lost_ht = 9, data_ht = [0, 0, 0, 0]\<rparr>)
       [] None 4
     = (Some \<lparr>size_ht = 4, head_ht = 0, tail_ht = 0, lost_ht = 0, data_ht = [0, 0, 0, 0]\<rparr>, 0, []) \<and>
   rb_destroy_ht (Some \<lparr>size_ht = 4, head_ht = 0, tail_ht = 0, lost_ht = 0, data_ht = [0, 0, 0, 0]\<rparr>)
     = Inr (Some \<lparr>size_ht = 4, head_ht = 0, tail_ht = 0, lost_ht = 0, data_ht = [0, 0, 0, 0]\<rparr>,
            EFAULT, []) \<and>
   rb_destroy_ht None = Inl NullDeref"
  by (simp add: run_defs_ht)

text \<open>
  \<^verbatim>\<open>rb_init\<close> of \<^verbatim>\<open>ringbuffer.c\<close> on a live handle: it returns
  \<^verbatim>\<open>EFAULT\<close>, acquires nothing and leaves the handle as it was.
\<close>

lemma rb_init_ht_refuses_live_handle:
  "rb_init_ht blk ercs (Some rb) sz = (Some rb, EFAULT, [])"
  by (simp add: rb_init_ht_def)

text \<open>
  Claim C8 on the code of the file with \<open>used\<close> and \<open>tail\<close>. Its
  \<^verbatim>\<open>rb_init\<close> never reads the pointer of the handle: called on a live handle
  that holds two bytes and a lost count of 3, it returns 0 and the handle points to a
  fresh empty buffer; the former block is neither released nor reachable any more.
\<close>

theorem init_replaces_live_buffer:
  "rb_init (Some \<lparr>size_rb = 9, used = 9, tail = 9, lost = 9, data = [0, 0, 0, 0]\<rparr>) []
       (Some \<lparr>size_rb = 4, used = 2, tail = 1, lost = 3, data = [5, 6, 7, 8]\<rparr>) 4
     = (Some \<lparr>size_rb = 4, used = 0, tail = 0, lost = 0, data = [0, 0, 0, 0]\<rparr>, 0, []) \<and>
   rb_init (Some \<lparr>size_rb = 9, used = 9, tail = 9, lost = 9, data = [0, 0, 0, 0]\<rparr>) []
       (Some \<lparr>size_rb = 4, used = 2, tail = 1, lost = 3, data = [5, 6, 7, 8]\<rparr>) 4
     \<noteq> (Some \<lparr>size_rb = 4, used = 2, tail = 1, lost = 3, data = [5, 6, 7, 8]\<rparr>, EFAULT, [])"
  by (simp add: run_defs)

section \<open>The lost counter\<close>

text \<open>
  \<^verbatim>\<open>rb_loose\<close> of the file with \<open>used\<close> and \<open>tail\<close> adds to the counter
  (modulo \<open>2 ^ 64\<close>, the counter being a \<^verbatim>\<open>size_t\<close>) and returns the new
  total; none of the three functions touches \<open>used\<close>, \<open>tail\<close> or the arena.
\<close>

lemma rb_loose_adds:
  "rb_loose (Some rb) n
     = (Some (rb\<lparr>lost := (lost rb + n) mod 2 ^ 64\<rparr>), (lost rb + n) mod 2 ^ 64)"
  by (simp add: rb_loose_def size_add_def)

lemma lost_counter_frame:
  "rb_loose (Some rb) n = (Some rb', m) \<Longrightarrow>
     used rb' = used rb \<and> tail rb' = tail rb \<and> data rb' = data rb \<and> size_rb rb' = size_rb rb"
  "rb_clear_lost (Some rb) = (Some rb', m) \<Longrightarrow>
     used rb' = used rb \<and> tail rb' = tail rb \<and> data rb' = data rb \<and> size_rb rb' = size_rb rb"
  by (auto simp: rb_loose_def rb_clear_lost_def)

lemma lost_counter_five_then_three:
  assumes "lost rb = 0"
  shows "rb_loose (Some rb) 5 = (Some (rb\<lparr>lost := 5\<rparr>), 5) \<and>
         rb_loose (Some (rb\<lparr>lost := 5\<rparr>)) 3 = (Some (rb\<lparr>lost := 8\<rparr>), 8) \<and>
         rb_get_lost (Some (rb\<lparr>lost := 8\<rparr>)) = 8 \<and>
         rb_clear_lost (Some (rb\<lparr>lost := 8\<rparr>)) = (Some (rb\<lparr>lost := 0\<rparr>), 8) \<and>
         rb_get_lost (Some (rb\<lparr>lost := 0\<rparr>)) = 0"
  using assms by (simp add: rb_loose_def rb_get_lost_def rb_clear_lost_def size_add_def)

text \<open>
  Claim C5 on the code of \<^verbatim>\<open>ringbuffer.c\<close>. Its \<^verbatim>\<open>rb_loose_data\<close>
  returns the sum of the counter and \<open>loose\<close> without storing it: after reporting 5
  and then 3 lost bytes on a fresh buffer the second call returns 3,
  \<^verbatim>\<open>rb_get_lost\<close> returns 0 and \<^verbatim>\<open>rb_clear_lost\<close> returns 0.
\<close>

theorem loose_data_never_stored:
  "rb_init_ht (Some \<lparr>size_ht = 4, head_ht = 9, tail_ht = 9, lost_ht = 9, data_ht = [0, 0, 0, 0]\<rparr>)
       [] None 4
     = (Some \<lparr>size_ht = 4, head_ht = 0, tail_ht = 0, lost_ht = 0, data_ht = [0, 0, 0, 0]\<rparr>, 0, []) \<and>
   rb_loose_data (Some \<lparr>size_ht = 4, head_ht = 0, tail_ht = 0, lost_ht = 0, data_ht = [0, 0, 0, 0]\<rparr>) 5
     = (Some \<lparr>size_ht = 4, head_ht = 0, tail_ht = 0, lost_ht = 0, data_ht = [0, 0, 0, 0]\<rparr>, 5) \<and>
   rb_loose_data (Some \<lparr>size_ht = 4, head_ht = 0, tail_ht = 0, lost_ht = 0, data_ht = [0, 0, 0, 0]\<rparr>) 3
     = (Some \<lparr>size_ht = 4, head_ht = 0, tail_ht = 0, lost_ht = 0, data_ht = [0, 0, 0, 0]\<rparr>, 3) \<and>
   rb_get_lost_ht (Some \<lparr>size_ht = 4, head_ht = 0, tail_ht = 0, lost_ht = 0, data_ht = [0, 0, 0, 0]\<rparr>)
     = 0 \<and>
   rb_clear_lost_ht (Some \<lparr>size_ht = 4, head_ht = 0, tail_ht = 0, lost_ht = 0, data_ht = [0, 0, 0, 0]\<rparr>)
     = (Some \<lparr>size_ht = 4, head_ht = 0, tail_ht = 0, lost_ht = 0, data_ht = [0, 0, 0, 0]\<rparr>, 0)"
  by (simp add: run_defs_ht)

text \<open>
  Claim C10. On a handle whose pointer is null, and a destroyed handle is one,
  \<^verbatim>\<open>rb_get_lost\<close>, \<^verbatim>\<open>rb_clear_lost\<close> and \<^verbatim>\<open>rb_loose\<close> (and
  \<^verbatim>\<open>rb_get_lost\<close>, \<^verbatim>\<open>rb_clear_lost\<close> and \<^verbatim>\<open>rb_loose_data\<close>
  of \<^verbatim>\<open>ringbuffer.c\<close>) return \<^verbatim>\<open>EFAULT\<close> as a \<^verbatim>\<open>size_t\<close>, which
  is positive; a live buffer whose counter has this value gives the same result.
\<close>

theorem lost_counter_null_handle_returns_efault:
  "rb_get_lost None = nat EFAULT \<and>
   rb_clear_lost None = (None, nat EFAULT) \<and>
   rb_loose None loose = (None, nat EFAULT) \<and>
   rb_get_lost_ht None = nat EFAULT \<and>
   rb_clear_lost_ht None = (None, nat EFAULT) \<and>
   rb_loose_data None loose = (None, nat EFAULT) \<and>
   0 < nat EFAULT \<and>
   fst (rb_destroy (Some rb)) = None \<and>
   rb_get_lost (Some (rb\<lparr>lost := nat EFAULT\<rparr>)) = rb_get_lost None \<and>
   snd (rb_clear_lost (Some (rb\<lparr>lost := nat EFAULT\<rparr>))) = snd (rb_clear_lost None) \<and>
   snd (rb_loose (Some (rb\<lparr>lost := nat EFAULT\<rparr>)) 0) = snd (rb_loose None 0)"
  by (simp add: rb_get_lost_def rb_clear_lost_def rb_loose_def rb_get_lost_ht_def
      rb_clear_lost_ht_def rb_loose_data_def rb_destroy_def EFAULT_def size_add_def)

end
